theory Spec2Isabelle
  imports Main
begin

section \<open>Values, errors and steps\<close>

text \<open>
  Steps are JavaScript objects; here a step object is identified with its \<open>id\<close>, and the
  layer plan carries the table from ids to the objects' fields.
\<close>

type_synonym stepid = nat

text \<open>
  Everything that can be thrown or be the reason of a rejection. \<open>StepError\<close> is an
  \<open>Error\<close> raised by a step; \<open>TypeError\<close> is the runtime's error for reading a property
  of \<open>undefined\<close> or \<open>null\<close>, \<open>ReferenceError\<close> its error for evaluating an identifier
  that is bound nowhere; the others are the \<open>new Error(...)\<close> of executeBucket.ts (their
  interpolated messages are abbreviated by \<open>message\<close>).
\<close>

datatype error =
    StepError string
  | TypeError
  | ReferenceError
  | ResultNotArray stepid
  | ResultWrongLength stepid nat nat
  | StepsNotComplete
  | TodoError
  | RootNotRoot

fun message :: "error \<Rightarrow> string" where
  "message (StepError m) = m"
| "message TypeError = ''Cannot read properties of undefined''"
| "message ReferenceError = ''isCrystalError is not defined''"
| "message (ResultNotArray s) = ''Result from step should be an array''"
| "message (ResultWrongLength s n k) = ''Result array from step has the wrong length''"
| "message StepsNotComplete = ''executeSamePhaseChildren called before all steps were complete!''"
| "message TodoError = ''TODO''"
| "message RootNotRoot = ''GraphileInternalError<05fb7069-81b5-43f7-ae71-f62547d2c2b7>: root cannot be not the root (...)''"

text \<open>The class \<open>_CrystalError\<close>: an \<open>Error\<close> with a message and the field \<open>originalError\<close>.\<close>

datatype crystal_error = CrystalErrorObj (ce_message: string) (originalError: error)

definition new_CrystalError :: "error \<Rightarrow> crystal_error" where
  "new_CrystalError original =
     (let msg = message original
      in CrystalErrorObj (if msg \<noteq> [] then ''CrystalError: '' @ msg else ''CrystalError'') original)"

definition newCrystalError :: "error \<Rightarrow> crystal_error" where
  "newCrystalError error = new_CrystalError error"

text \<open>
  executeBucket.ts calls \<open>newCrystalError(error, step.id)\<close>; the declaration has one
  parameter, and JavaScript discards a surplus argument.
\<close>

definition newCrystalError_call :: "error \<Rightarrow> stepid \<Rightarrow> crystal_error" where
  "newCrystalError_call error stepId = newCrystalError error"

text \<open>
  A settled value is \<open>undefined\<close>, ordinary data or a CrystalError. An entry of a column
  is a settled value or a promise, which fulfils with a settled value or rejects.
\<close>

datatype datum = Undefined | Num int | ErrV crystal_error

datatype entry = Plain datum | Fulfills datum | Rejects error

type_synonym column = "entry list"

text \<open>The predicate \<open>isCrystalError\<close> that error.ts exports.\<close>

definition isCrystalError :: "entry \<Rightarrow> bool" where
  "isCrystalError v = (case v of Plain (ErrV e) \<Rightarrow> True | _ \<Rightarrow> False)"

text \<open>
  executeBucket.ts imports from error.ts the function \<open>newCrystalError\<close> and the type
  \<open>CrystalError\<close>, nothing else. The identifier \<open>isCrystalError\<close> in
  \<open>reallyExecuteStepWithErrors\<close> is therefore bound nowhere in that module, and
  evaluating the call \<open>isCrystalError(v)\<close> throws a ReferenceError, whatever \<open>v\<close> is;
  the predicate of error.ts is never reached.
\<close>

definition isCrystalError_call :: "entry \<Rightarrow> error + bool" where
  "isCrystalError_call v = Inl ReferenceError"

text \<open>
  What \<open>execute\<close> may hand back in place of a column: \<open>null\<close>/\<open>undefined\<close>, some other
  value that is not an array (a number: every index of it reads \<open>undefined\<close>), or an array.
\<close>

datatype returned = Nullish | Scalar int | Array column

datatype 'a promise = Fulfilled 'a | Rejected error

datatype exec_result = Throws error | Returns returned | Promised "returned promise"

text \<open>
  The fields of an ExecutableStep that the executor reads. \<open>execute\<close> is taken as a
  function of the dependency columns (\<open>extra\<close> is passed through untouched); a column read
  from the store may be \<open>undefined\<close>, hence the \<open>option\<close>.
\<close>

record step =
  dependencies :: "stepid list"
  dependentPlans :: "stepid list"
  isSyncAndSafe :: bool
  execute :: "column option list \<Rightarrow> exec_result"

section \<open>The error-aware invoker\<close>

text \<open>\<open>results[k]\<close>: throws on \<open>null\<close>/\<open>undefined\<close>, reads \<open>undefined\<close> out of range.\<close>

definition readIndex :: "returned \<Rightarrow> nat \<Rightarrow> error + entry" where
  "readIndex results k =
     (case results of
        Nullish \<Rightarrow> Inl TypeError
      | Scalar n \<Rightarrow> Inr (Plain Undefined)
      | Array xs \<Rightarrow> Inr (if k < length xs then xs ! k else Plain Undefined))"

text \<open>
  The loop of \<open>mergeErrorsBackIn\<close>, from row \<open>i\<close> on, with \<open>remaining = resultCount - i\<close>
  rows to go; \<open>finalResults[i] = ...\<close> for consecutive \<open>i\<close> builds the list in order.
\<close>

fun mergeLoop ::
  "returned \<Rightarrow> (nat \<rightharpoonup> entry) \<Rightarrow> nat \<Rightarrow> nat \<Rightarrow> nat \<Rightarrow> error + column" where
  "mergeLoop results errors i resultIndex 0 = Inr []"
| "mergeLoop results errors i resultIndex (Suc remaining) =
     (case errors i of
        Some error \<Rightarrow>
          (case mergeLoop results errors (Suc i) resultIndex remaining of
             Inl e \<Rightarrow> Inl e
           | Inr finalResults \<Rightarrow> Inr (error # finalResults))
      | None \<Rightarrow>
          (case readIndex results resultIndex of
             Inl e \<Rightarrow> Inl e
           | Inr v \<Rightarrow>
               (case mergeLoop results errors (Suc i) (Suc resultIndex) remaining of
                  Inl e \<Rightarrow> Inl e
                | Inr finalResults \<Rightarrow> Inr (v # finalResults))))"

definition mergeErrorsBackIn ::
  "returned \<Rightarrow> (nat \<rightharpoonup> entry) \<Rightarrow> nat \<Rightarrow> error + column" where
  "mergeErrorsBackIn results errors resultCount = mergeLoop results errors 0 0 resultCount"

text \<open>
  The inner loop of the scan: one dependency column, from row \<open>index\<close> on. Each
  iteration evaluates \<open>isCrystalError(v)\<close>, and a throw there leaves the loops.
\<close>

fun scanColumn ::
  "column \<Rightarrow> nat \<Rightarrow> bool \<times> (nat \<rightharpoonup> entry) \<Rightarrow> error + bool \<times> (nat \<rightharpoonup> entry)" where
  "scanColumn [] index acc = Inr acc"
| "scanColumn (v # depList) index (foundErrors, errors) =
     (case isCrystalError_call v of
        Inl e \<Rightarrow> Inl e
      | Inr isError \<Rightarrow>
          scanColumn depList (Suc index)
            (if isError then
               (if errors index = None then (True, errors(index \<mapsto> v))
                else (foundErrors, errors))
             else (foundErrors, errors)))"

text \<open>The outer loop; \<open>depList.length\<close> of an \<open>undefined\<close> column throws.\<close>

fun scanDependencies ::
  "column option list \<Rightarrow> bool \<times> (nat \<rightharpoonup> entry) \<Rightarrow> error + bool \<times> (nat \<rightharpoonup> entry)" where
  "scanDependencies [] acc = Inr acc"
| "scanDependencies (None # deps) acc = Inl TypeError"
| "scanDependencies (Some depList # deps) acc =
     (case scanColumn depList 0 acc of
        Inl e \<Rightarrow> Inl e
      | Inr acc' \<Rightarrow> scanDependencies deps acc')"

text \<open>\<open>depList.filter((_, index) => !errors[index])\<close>.\<close>

definition filterRows :: "(nat \<rightharpoonup> entry) \<Rightarrow> column \<Rightarrow> column" where
  "filterRows errors depList =
     map snd (filter (\<lambda>(index, v). errors index = None) (enumerate 0 depList))"

definition reallyExecuteStepWithNoErrors :: "step \<Rightarrow> column option list \<Rightarrow> exec_result" where
  "reallyExecuteStepWithNoErrors step deps = execute step deps"

text \<open>
  \<open>dependencies[0].length\<close>. It is read only after the scan went through every column,
  so the first column exists and is defined where the source reads it.
\<close>

definition firstLength :: "column option list \<Rightarrow> error + nat" where
  "firstLength deps =
     (case deps of Some depList # _ \<Rightarrow> Inr (length depList) | _ \<Rightarrow> Inl TypeError)"

text \<open>
  \<open>resultWithoutErrors.then((r) => mergeErrorsBackIn(r, errors, dependencies[0].length))\<close>:
  the callback runs on the fulfilment value, and a throw inside it rejects the derived
  promise.
\<close>

definition thenMerge ::
  "(nat \<rightharpoonup> entry) \<Rightarrow> column option list \<Rightarrow> returned promise \<Rightarrow> returned promise" where
  "thenMerge errors deps p =
     (case p of
        Rejected e \<Rightarrow> Rejected e
      | Fulfilled r \<Rightarrow>
          (case firstLength deps of
             Inl e \<Rightarrow> Rejected e
           | Inr resultCount \<Rightarrow>
               (case mergeErrorsBackIn r errors resultCount of
                  Inl e \<Rightarrow> Rejected e
                | Inr finalResults \<Rightarrow> Fulfilled (Array finalResults))))"

definition reallyExecuteStepWithErrors :: "step \<Rightarrow> column option list \<Rightarrow> exec_result" where
  "reallyExecuteStepWithErrors step deps =
     (case scanDependencies deps (False, Map.empty) of
        Inl e \<Rightarrow> Throws e
      | Inr (foundErrors, errors) \<Rightarrow>
          if foundErrors then
            (let depsWithoutErrors = map (map_option (filterRows errors)) deps
             in case execute step depsWithoutErrors of
                  Throws e \<Rightarrow> Throws e
                | Promised resultWithoutErrors \<Rightarrow>
                    Promised (thenMerge errors deps resultWithoutErrors)
                | Returns resultWithoutErrors \<Rightarrow>
                    (case firstLength deps of
                       Inl e \<Rightarrow> Throws e
                     | Inr resultCount \<Rightarrow>
                         (case mergeErrorsBackIn resultWithoutErrors errors resultCount of
                            Inl e \<Rightarrow> Throws e
                          | Inr finalResults \<Rightarrow> Returns (Array finalResults))))
          else reallyExecuteStepWithNoErrors step deps)"

section \<open>Buckets and the state of one execution\<close>

datatype reason =
  Root | ListItem | MutationField | Polymorphic | Subroutine | Subscription | Defer | Stream

text \<open>
  A child layer plan is read only through \<open>reason.type\<close>. \<open>stepOf\<close> is the object
  graph: the step object behind each reference.
\<close>

record layer_plan =
  steps :: "stepid list"
  startSteps :: "stepid list"
  children :: "reason list"
  stepOf :: "stepid \<Rightarrow> step"

record bucket =
  bucket_size :: nat
  store :: "stepid \<rightharpoonup> column"
  noDepsList :: column
  layerPlan :: layer_plan
  hasErrors :: bool
  isComplete :: bool

text \<open>
  A continuation registered with \<open>.then\<close> and not yet run: on the promise a step's
  \<open>execute\<close> returned, or on \<open>Promise.allSettled(result)\<close>.
\<close>

datatype task = AwaitExecute stepid "returned promise" | AwaitSettled stepid column

text \<open>
  The bucket together with the locals of one call of \<open>executeBucket\<close>. Every promise the
  call creates is chained, through \<open>Promise.all\<close> and \<open>.then\<close>, into the promise it
  returns, so the chain is kept flat: \<open>tasks\<close> are the continuations still to run and
  \<open>rejection\<close> is the first reason that rejected a link of the chain. \<open>dispatched\<close> is a
  log, not in the source: the steps that passed the guard of \<open>executeStep\<close>, each with the
  dependency columns it was given.
\<close>

record executor = bucket +
  inProgressSteps :: "stepid set"
  pendingSteps :: "stepid set"
  tasks :: "task list"
  rejection :: "error option"
  dispatched :: "(stepid \<times> column option list) list"

text \<open>What a call gives back: a throw, or whether it returned a promise, and the new state.\<close>

type_synonym ret = "error + bool \<times> executor"

text \<open>Modelled from the spec: \<open>arrayOfLength\<close> of utils.js, a value broadcast across all rows.\<close>

definition arrayOfLength :: "nat \<Rightarrow> entry \<Rightarrow> column" where
  "arrayOfLength n fill = replicate n fill"

definition reject :: "error \<Rightarrow> executor \<Rightarrow> executor" where
  "reject e st = st\<lparr>rejection := (case rejection st of None \<Rightarrow> Some e | Some r \<Rightarrow> Some r)\<rparr>"

text \<open>
  \<open>rejectOnThrow\<close>: a throw of the callback becomes a rejected promise. \<open>None\<close> is the
  model's own: the recursion bound of \<open>executeStep\<close> below was reached.
\<close>

definition rejectOnThrow :: "(executor \<Rightarrow> ret option) \<Rightarrow> executor \<Rightarrow> (bool \<times> executor) option" where
  "rejectOnThrow cb st =
     (case cb st of
        None \<Rightarrow> None
      | Some (Inl e) \<Rightarrow> Some (True, reject e st)
      | Some (Inr r) \<Rightarrow> Some r)"

section \<open>The scheduler\<close>

text \<open>
  The closures of \<open>executeBucket\<close> call each other; \<open>exec\<close> stands for \<open>executeStep\<close>
  in the ones defined before it. The loop over \<open>finishedStep.dependentPlans\<close>, with
  \<open>promises.length > 0\<close> as the flag \<open>promises\<close>:
\<close>

fun dispatchDependents ::
  "(stepid \<Rightarrow> executor \<Rightarrow> ret option) \<Rightarrow> stepid list \<Rightarrow> bool \<times> executor
     \<Rightarrow> (bool \<times> executor) option" where
  "dispatchDependents exec [] acc = Some acc"
| "dispatchDependents exec (potentialNextStep # rest) (promises, st) =
     (let isPending = potentialNextStep \<in> pendingSteps st;
          isSuitable =
            (if isPending then
               list_all (\<lambda>depId. store st depId \<noteq> None)
                 (dependencies (stepOf (layerPlan st) potentialNextStep))
             else False)
      in if isSuitable then
           (case rejectOnThrow (exec potentialNextStep) st of
              None \<Rightarrow> None
            | Some (isPromise, st') \<Rightarrow> dispatchDependents exec rest (promises \<or> isPromise, st'))
         else dispatchDependents exec rest (promises, st))"

definition reallyCompletedStep ::
  "(stepid \<Rightarrow> executor \<Rightarrow> ret option) \<Rightarrow> stepid \<Rightarrow> executor \<Rightarrow> (bool \<times> executor) option" where
  "reallyCompletedStep exec finishedStep st0 =
     (let st = st0\<lparr>inProgressSteps := inProgressSteps st0 - {finishedStep},
                   pendingSteps := pendingSteps st0 - {finishedStep}\<rparr>
      in if pendingSteps st = {} then Some (False, st)
         else dispatchDependents exec (dependentPlans (stepOf (layerPlan st) finishedStep))
                (False, st))"

text \<open>
  The callback of \<open>Promise.allSettled(result).then\<close>: \<open>rs.map\<close>, left to right, with its
  assignment to \<open>bucket.hasErrors\<close>.
\<close>

fun settleAll :: "stepid \<Rightarrow> column \<Rightarrow> executor \<Rightarrow> column \<times> executor" where
  "settleAll finishedStep [] st = ([], st)"
| "settleAll finishedStep (t # rs) st =
     (case t of
        Plain v \<Rightarrow>
          (let (result, st') = settleAll finishedStep rs st in (Plain v # result, st'))
      | Fulfills v \<Rightarrow>
          (let (result, st') = settleAll finishedStep rs st in (Plain v # result, st'))
      | Rejects reason \<Rightarrow>
          (let (result, st') = settleAll finishedStep rs (st\<lparr>hasErrors := True\<rparr>)
           in (Plain (ErrV (newCrystalError_call reason finishedStep)) # result, st')))"

definition settledStep ::
  "(stepid \<Rightarrow> executor \<Rightarrow> ret option) \<Rightarrow> stepid \<Rightarrow> column \<Rightarrow> executor
     \<Rightarrow> (bool \<times> executor) option" where
  "settledStep exec finishedStep rs st =
     (let (result, st') = settleAll finishedStep rs st
      in reallyCompletedStep exec finishedStep
           (st'\<lparr>store := (store st')(finishedStep \<mapsto> result)\<rparr>))"

definition completedStep ::
  "(stepid \<Rightarrow> executor \<Rightarrow> ret option) \<Rightarrow> stepid \<Rightarrow> returned \<Rightarrow> bool \<Rightarrow> executor
     \<Rightarrow> ret option" where
  "completedStep exec finishedStep result noNewErrors st =
     (case result of
        Nullish \<Rightarrow> Some (Inl (ResultNotArray finishedStep))
      | Scalar n \<Rightarrow> Some (Inl (ResultNotArray finishedStep))
      | Array xs \<Rightarrow>
          if length xs \<noteq> bucket_size st then
            Some (Inl (ResultWrongLength finishedStep (bucket_size st) (length xs)))
          else if isSyncAndSafe (stepOf (layerPlan st) finishedStep) \<and> noNewErrors then
            map_option Inr
              (reallyCompletedStep exec finishedStep
                 (st\<lparr>store := (store st)(finishedStep \<mapsto> xs)\<rparr>))
          else
            Some (Inr (True, st\<lparr>tasks := tasks st @ [AwaitSettled finishedStep xs]\<rparr>)))"

text \<open>
  \<open>executeStep\<close>. The \<open>try\<close> block gives a throw (of \<open>execute\<close>, of the invoker, of
  \<open>completedStep\<close>) or a return; both throwing places leave the state as it was when the
  block was entered, so the \<open>catch\<close> block starts from there.
\<close>

definition executeStepBody ::
  "(stepid \<Rightarrow> executor \<Rightarrow> ret option) \<Rightarrow> stepid \<Rightarrow> executor \<Rightarrow> ret option" where
  "executeStepBody exec step st0 =
     (if step \<in> inProgressSteps st0 then Some (Inr (False, st0))
      else
        (let this = stepOf (layerPlan st0) step;
             deps =
               (if length (dependencies this) > 0 then map (store st0) (dependencies this)
                else [Some (noDepsList st0)]);
             st = st0\<lparr>inProgressSteps := insert step (inProgressSteps st0),
                       dispatched := dispatched st0 @ [(step, deps)]\<rparr>;
             result =
               (if hasErrors st then reallyExecuteStepWithErrors this deps
                else reallyExecuteStepWithNoErrors this deps)
         in case (case result of
                    Throws e \<Rightarrow> Some (Inl e)
                  | Promised p \<Rightarrow>
                      Some (Inr (True, st\<lparr>tasks := tasks st @ [AwaitExecute step p]\<rparr>))
                  | Returns values \<Rightarrow> completedStep exec step values True st) of
              None \<Rightarrow> None
            | Some (Inr r) \<Rightarrow> Some (Inr r)
            | Some (Inl error) \<Rightarrow>
                completedStep exec step
                  (Array (arrayOfLength (bucket_size st)
                            (Plain (ErrV (newCrystalError_call error step)))))
                  True (st\<lparr>hasErrors := True\<rparr>)))"

text \<open>
  The synchronous recursion \<open>executeStep\<close> \<open>\<rightarrow>\<close> \<open>completedStep\<close> \<open>\<rightarrow>\<close>
  \<open>reallyCompletedStep\<close> \<open>\<rightarrow>\<close> \<open>executeStep\<close>, bounded by \<open>fuel\<close> nested calls.
\<close>

primrec executeStep :: "nat \<Rightarrow> stepid \<Rightarrow> executor \<Rightarrow> ret option" where
  "executeStep 0 = (\<lambda>step st. None)"
| "executeStep (Suc fuel) = executeStepBody (executeStep fuel)"

text \<open>
  The handlers of \<open>result.then(onFulfilled, onRejected)\<close> in \<open>executeStep\<close> and the
  callback of \<open>Promise.allSettled(result).then\<close>, run when the awaited promise has settled.
  A throw of a handler rejects the derived promise.
\<close>

definition runTask :: "nat \<Rightarrow> task \<Rightarrow> executor \<Rightarrow> executor option" where
  "runTask fuel t st =
     (case t of
        AwaitExecute step (Fulfilled values) \<Rightarrow>
          map_option snd
            (rejectOnThrow (completedStep (executeStep fuel) step values False) st)
      | AwaitExecute step (Rejected error) \<Rightarrow>
          map_option snd
            (rejectOnThrow
               (completedStep (executeStep fuel) step
                  (Array (arrayOfLength (bucket_size st)
                            (Plain (ErrV (newCrystalError_call error step)))))
                  False)
               (st\<lparr>hasErrors := True\<rparr>))
      | AwaitSettled finishedStep rs \<Rightarrow>
          map_option snd (settledStep (executeStep fuel) finishedStep rs st))"

text \<open>
  Every awaited promise is taken to settle, with the outcome its step fixed; the
  environment decides only which one settles next: \<open>fire i\<close> runs the continuation
  at position \<open>i\<close> of \<open>tasks\<close>, and a schedule is a list of positions. All
  interleavings are allowed, also those the microtask queue would not produce.
\<close>

definition fire :: "nat \<Rightarrow> nat \<Rightarrow> executor \<Rightarrow> executor option" where
  "fire fuel i st =
     (if i < length (tasks st) then
        runTask fuel (tasks st ! i) (st\<lparr>tasks := take i (tasks st) @ drop (Suc i) (tasks st)\<rparr>)
      else Some st)"

fun runSchedule :: "nat \<Rightarrow> nat list \<Rightarrow> executor \<Rightarrow> executor option" where
  "runSchedule fuel [] st = Some st"
| "runSchedule fuel (i # schedule) st =
     (case fire fuel i st of None \<Rightarrow> None | Some st' \<Rightarrow> runSchedule fuel schedule st')"

text \<open>The loop over \<open>startSteps\<close>, with \<open>starterPromises.length > 0\<close> as the flag.\<close>

fun dispatchStartSteps ::
  "nat \<Rightarrow> stepid list \<Rightarrow> bool \<times> executor \<Rightarrow> (bool \<times> executor) option" where
  "dispatchStartSteps fuel [] acc = Some acc"
| "dispatchStartSteps fuel (step # rest) (starterPromises, st) =
     (case rejectOnThrow (executeStep fuel step) st of
        None \<Rightarrow> None
      | Some (isPromise, st') \<Rightarrow>
          dispatchStartSteps fuel rest (starterPromises \<or> isPromise, st'))"

text \<open>
  The \<open>switch\<close> over the child layer plans; no branch pushes to \<open>childPromises\<close>, whose
  length is the number carried along.
\<close>

fun handOff :: "reason list \<Rightarrow> nat \<Rightarrow> error + nat" where
  "handOff [] childPromises = Inr childPromises"
| "handOff (ListItem # rest) childPromises = Inl TodoError"
| "handOff (MutationField # rest) childPromises = Inl TodoError"
| "handOff (Polymorphic # rest) childPromises = Inl TodoError"
| "handOff (Subroutine # rest) childPromises = handOff rest childPromises"
| "handOff (Subscription # rest) childPromises = handOff rest childPromises"
| "handOff (Defer # rest) childPromises = handOff rest childPromises"
| "handOff (Stream # rest) childPromises = handOff rest childPromises"
| "handOff (Root # rest) childPromises = Inl RootNotRoot"

text \<open>
  \<open>executeSamePhaseChildren\<close>: both branches of its last \<open>if\<close> return, so the
  assignment \<open>bucket.isComplete = true\<close> written after them is never reached.
\<close>

definition executeSamePhaseChildren :: "executor \<Rightarrow> ret" where
  "executeSamePhaseChildren st =
     (if pendingSteps st \<noteq> {} then Inl StepsNotComplete
      else
        (case handOff (children (layerPlan st)) 0 of
           Inl e \<Rightarrow> Inl e
         | Inr childPromises \<Rightarrow>
             if childPromises > 0 then Inr (True, st) else Inr (False, st)))"

text \<open>
  What the caller of \<open>executeBucket\<close> observes: a throw, a return of \<open>undefined\<close>, or a
  promise, which has resolved, has rejected, or is still waiting when the schedule ends.
\<close>

datatype outcome = Thrown error | Direct | Resolved | RejectedWith error | Unsettled

definition initial :: "bucket \<Rightarrow> executor" where
  "initial bucket =
     \<lparr>bucket_size = bucket_size bucket, store = store bucket, noDepsList = noDepsList bucket,
      layerPlan = layerPlan bucket, hasErrors = hasErrors bucket,
      isComplete = isComplete bucket,
      inProgressSteps = {}, pendingSteps = set (steps (layerPlan bucket)),
      tasks = [], rejection = None, dispatched = []\<rparr>"

text \<open>A nested synchronous call of \<open>executeStep\<close> is for a pending step, so this many suffice.\<close>

definition fuelFor :: "bucket \<Rightarrow> nat" where
  "fuelFor bucket = Suc (length (steps (layerPlan bucket)))"

text \<open>
  \<open>Promise.all(starterPromises).then(executeSamePhaseChildren)\<close>: rejected as soon as a
  link rejects; otherwise the hand-off runs once every continuation has run.
\<close>

definition settled :: "executor \<Rightarrow> outcome \<times> executor" where
  "settled st =
     (case rejection st of
        Some e \<Rightarrow> (RejectedWith e, st)
      | None \<Rightarrow>
          if tasks st = [] then
            (case executeSamePhaseChildren st of
               Inl e \<Rightarrow> (RejectedWith e, st)
             | Inr (p, st') \<Rightarrow> (Resolved, st'))
          else (Unsettled, st))"

definition executeBucket :: "nat list \<Rightarrow> bucket \<Rightarrow> (outcome \<times> executor) option" where
  "executeBucket schedule bucket =
     (case dispatchStartSteps (fuelFor bucket) (startSteps (layerPlan bucket))
             (False, initial bucket) of
        None \<Rightarrow> None
      | Some (starterPromises, st) \<Rightarrow>
          if starterPromises then
            map_option settled (runSchedule (fuelFor bucket) schedule st)
          else
            (case executeSamePhaseChildren st of
               Inl e \<Rightarrow> Some (Thrown e, st)
             | Inr (p, st') \<Rightarrow> Some (Direct, st')))"

section \<open>The executor as a transition system\<close>

text \<open>
  The nested calls of the scheduler, flattened: one \<open>dispatches\<close> step is one call of
  \<open>executeStep\<close> that passes its guard, up to the point where it hands over to
  \<open>reallyCompletedStep\<close> or registers a continuation; one \<open>settles\<close> step is one
  continuation run by the event loop, up to the same point. The definitions below name
  the values \<open>executeStep\<close> computes on the way.
\<close>

definition depsFor :: "executor \<Rightarrow> stepid \<Rightarrow> column option list" where
  "depsFor st s =
     (if length (dependencies (stepOf (layerPlan st) s)) > 0
      then map (store st) (dependencies (stepOf (layerPlan st) s))
      else [Some (noDepsList st)])"

definition invoke :: "executor \<Rightarrow> stepid \<Rightarrow> exec_result" where
  "invoke st s =
     (if hasErrors st then reallyExecuteStepWithErrors (stepOf (layerPlan st) s) (depsFor st s)
      else reallyExecuteStepWithNoErrors (stepOf (layerPlan st) s) (depsFor st s))"

text \<open>The exception \<open>completedStep\<close> throws for a result, if any.\<close>

definition shapeError :: "nat \<Rightarrow> stepid \<Rightarrow> returned \<Rightarrow> error option" where
  "shapeError n s r =
     (case r of
        Nullish \<Rightarrow> Some (ResultNotArray s)
      | Scalar k \<Rightarrow> Some (ResultNotArray s)
      | Array xs \<Rightarrow> if length xs \<noteq> n then Some (ResultWrongLength s n (length xs)) else None)"

definition broadcast :: "executor \<Rightarrow> stepid \<Rightarrow> error \<Rightarrow> column" where
  "broadcast st s e = arrayOfLength (bucket_size st) (Plain (ErrV (newCrystalError_call e s)))"

text \<open>
  The error caught by the \<open>catch\<close> block of \<open>executeStep\<close>, if any, and the column that
  goes on to completion, when \<open>execute\<close> did not return a promise.
\<close>

definition caught :: "executor \<Rightarrow> stepid \<Rightarrow> error option" where
  "caught st s =
     (case invoke st s of
        Throws e \<Rightarrow> Some e
      | Returns r \<Rightarrow> shapeError (bucket_size st) s r
      | Promised p \<Rightarrow> None)"

definition syncColumn :: "executor \<Rightarrow> stepid \<Rightarrow> column option" where
  "syncColumn st s =
     (case invoke st s of
        Promised p \<Rightarrow> None
      | Throws e \<Rightarrow> Some (broadcast st s e)
      | Returns r \<Rightarrow>
          (case shapeError (bucket_size st) s r of
             Some e \<Rightarrow> Some (broadcast st s e)
           | None \<Rightarrow> (case r of Array xs \<Rightarrow> Some xs | _ \<Rightarrow> None)))"

text \<open>
  The guard under which \<open>reallyCompletedStep\<close> calls \<open>executeStep\<close>, and the one inside
  \<open>executeStep\<close>; \<open>Q\<close> stands for what is known at the other call site, the loop over
  \<open>startSteps\<close>.
\<close>

definition isDependent :: "executor \<Rightarrow> stepid \<Rightarrow> bool" where
  "isDependent st s \<longleftrightarrow> (\<exists>f. s \<in> set (dependentPlans (stepOf (layerPlan st) f)))"

definition suitable :: "executor \<Rightarrow> stepid \<Rightarrow> bool" where
  "suitable st s \<longleftrightarrow>
     s \<in> pendingSteps st \<and>
     list_all (\<lambda>depId. store st depId \<noteq> None) (dependencies (stepOf (layerPlan st) s)) \<and>
     isDependent st s"

inductive dispatches :: "(stepid \<Rightarrow> executor \<Rightarrow> bool) \<Rightarrow> executor \<Rightarrow> executor \<Rightarrow> bool"
  for Q :: "stepid \<Rightarrow> executor \<Rightarrow> bool" where
  async:
    "\<lbrakk>s \<notin> inProgressSteps st; Q s st \<or> suitable st s; invoke st s = Promised p\<rbrakk>
     \<Longrightarrow> dispatches Q st
           (st\<lparr>inProgressSteps := insert s (inProgressSteps st),
               dispatched := dispatched st @ [(s, depsFor st s)],
               tasks := tasks st @ [AwaitExecute s p]\<rparr>)"
| slow:
    "\<lbrakk>s \<notin> inProgressSteps st; Q s st \<or> suitable st s; syncColumn st s = Some xs;
      \<not> isSyncAndSafe (stepOf (layerPlan st) s)\<rbrakk>
     \<Longrightarrow> dispatches Q st
           (st\<lparr>inProgressSteps := insert s (inProgressSteps st),
               dispatched := dispatched st @ [(s, depsFor st s)],
               hasErrors := hasErrors st \<or> caught st s \<noteq> None,
               tasks := tasks st @ [AwaitSettled s xs]\<rparr>)"
| fast:
    "\<lbrakk>s \<notin> inProgressSteps st; Q s st \<or> suitable st s; syncColumn st s = Some xs;
      isSyncAndSafe (stepOf (layerPlan st) s)\<rbrakk>
     \<Longrightarrow> dispatches Q st
           (st\<lparr>dispatched := dispatched st @ [(s, depsFor st s)],
               hasErrors := hasErrors st \<or> caught st s \<noteq> None,
               store := (store st)(s \<mapsto> xs),
               inProgressSteps := inProgressSteps st - {s},
               pendingSteps := pendingSteps st - {s}\<rparr>)"

definition without :: "nat \<Rightarrow> executor \<Rightarrow> executor" where
  "without i st = st\<lparr>tasks := take i (tasks st) @ drop (Suc i) (tasks st)\<rparr>"

definition isRejects :: "entry \<Rightarrow> bool" where
  "isRejects t = (case t of Rejects reason \<Rightarrow> True | _ \<Rightarrow> False)"

inductive settles :: "executor \<Rightarrow> executor \<Rightarrow> bool" where
  fulfilled:
    "\<lbrakk>i < length (tasks st); tasks st ! i = AwaitExecute s (Fulfilled (Array xs));
      length xs = bucket_size st\<rbrakk>
     \<Longrightarrow> settles st
           (st\<lparr>tasks := take i (tasks st) @ drop (Suc i) (tasks st) @ [AwaitSettled s xs]\<rparr>)"
| misshapen:
    "\<lbrakk>i < length (tasks st); tasks st ! i = AwaitExecute s (Fulfilled r);
      shapeError (bucket_size st) s r = Some e\<rbrakk>
     \<Longrightarrow> settles st (reject e (without i st))"
| rejected:
    "\<lbrakk>i < length (tasks st); tasks st ! i = AwaitExecute s (Rejected e)\<rbrakk>
     \<Longrightarrow> settles st
           (st\<lparr>tasks := take i (tasks st) @ drop (Suc i) (tasks st) @
                          [AwaitSettled s (broadcast st s e)],
               hasErrors := True\<rparr>)"
| published:
    "\<lbrakk>i < length (tasks st); tasks st ! i = AwaitSettled s rs\<rbrakk>
     \<Longrightarrow> settles st
           (st\<lparr>tasks := take i (tasks st) @ drop (Suc i) (tasks st),
               hasErrors := hasErrors st \<or> (\<exists>t\<in>set rs. isRejects t),
               store := (store st)(s \<mapsto> fst (settleAll s rs st)),
               inProgressSteps := inProgressSteps st - {s},
               pendingSteps := pendingSteps st - {s}\<rparr>)"

text \<open>Any mix of the two, as a run of \<open>executeBucket\<close> produces.\<close>

definition advances :: "(stepid \<Rightarrow> executor \<Rightarrow> bool) \<Rightarrow> executor \<Rightarrow> executor \<Rightarrow> bool" where
  "advances Q st st' \<longleftrightarrow> dispatches Q st st' \<or> settles st st'"

section \<open>Notions used to state the properties\<close>

text \<open>The exceptions of \<open>completedStep\<close>, and the executor's own exceptions at large.\<close>

definition isShapeError :: "error \<Rightarrow> bool" where
  "isShapeError e =
     (case e of ResultNotArray s \<Rightarrow> True | ResultWrongLength s n k \<Rightarrow> True | _ \<Rightarrow> False)"

definition executorError :: "error \<Rightarrow> bool" where
  "executorError e =
     (case e of StepError m \<Rightarrow> False | TypeError \<Rightarrow> False | ReferenceError \<Rightarrow> False | _ \<Rightarrow> True)"

text \<open>The steps that passed the guard of \<open>executeStep\<close> so far.\<close>

definition dispatchedSteps :: "executor \<Rightarrow> stepid set" where
  "dispatchedSteps st = fst ` set (dispatched st)"

definition materialized :: "executor \<Rightarrow> stepid \<Rightarrow> bool" where
  "materialized st s \<longleftrightarrow>
     list_all (\<lambda>depId. store st depId \<noteq> None) (dependencies (stepOf (layerPlan st) s))"

text \<open>
  An entry that is an ErrorValue, or a promise of one: what shows up as an ErrorValue in
  a published column without any rejection.
\<close>

definition carriesError :: "entry \<Rightarrow> bool" where
  "carriesError v =
     (case v of Plain (ErrV e) \<Rightarrow> True | Fulfills (ErrV e) \<Rightarrow> True | _ \<Rightarrow> False)"

definition errorFree :: "column \<Rightarrow> bool" where
  "errorFree xs \<longleftrightarrow> (\<forall>v\<in>set xs. \<not> carriesError v)"

text \<open>
  ErrorValues are constructed in error.ts only (``do not allow construction of errors
  outside of this module''): a step given columns without ErrorValues cannot put one
  into the column it returns or fulfils. It may still throw, reject, or reject a row.
\<close>

definition forgeFree :: "layer_plan \<Rightarrow> bool" where
  "forgeFree plan \<longleftrightarrow>
     (\<forall>s deps xs.
        (execute (stepOf plan s) deps = Returns (Array xs) \<or>
         execute (stepOf plan s) deps = Promised (Fulfilled (Array xs))) \<longrightarrow>
        (\<forall>d. Some d \<in> set deps \<longrightarrow> errorFree d) \<longrightarrow> errorFree xs)"

fun taskErrorFree :: "task \<Rightarrow> bool" where
  "taskErrorFree (AwaitExecute s (Fulfilled (Array xs))) = errorFree xs"
| "taskErrorFree (AwaitExecute s p) = True"
| "taskErrorFree (AwaitSettled s xs) = errorFree xs"

text \<open>
  While \<open>hasErrors\<close> is false no column in the bucket, on its way into it, or handed to a
  step carries an ErrorValue.
\<close>

definition errorsFlagged :: "executor \<Rightarrow> bool" where
  "errorsFlagged st \<longleftrightarrow>
     (\<not> hasErrors st \<longrightarrow>
        (\<forall>s xs. store st s = Some xs \<longrightarrow> errorFree xs) \<and>
        errorFree (noDepsList st) \<and>
        (\<forall>t\<in>set (tasks st). taskErrorFree t) \<and>
        (\<forall>(s, deps)\<in>set (dispatched st). \<forall>d. Some d \<in> set deps \<longrightarrow> errorFree d))"

text \<open>
  What the callback of \<open>Promise.allSettled(result).then\<close> makes of one entry: the value of
  a fulfilled one, the ErrorValue of the reason of a rejected one.
\<close>

definition settledEntry :: "entry \<Rightarrow> entry" where
  "settledEntry t =
     (case t of
        Plain v \<Rightarrow> Plain v
      | Fulfills v \<Rightarrow> Plain v
      | Rejects reason \<Rightarrow> Plain (ErrV (newCrystalError reason)))"

text \<open>
  Step \<open>s\<close> was dispatched on dependency columns for which its \<open>execute\<close> returns the
  column \<open>R\<close>; or delivers it, by returning it or through a promise that fulfils with it.
\<close>

definition returnedBy :: "executor \<Rightarrow> stepid \<Rightarrow> column \<Rightarrow> bool" where
  "returnedBy st s R \<longleftrightarrow>
     (\<exists>deps. (s, deps) \<in> set (dispatched st) \<and>
        execute (stepOf (layerPlan st) s) deps = Returns (Array R))"

definition delivered :: "executor \<Rightarrow> stepid \<Rightarrow> column \<Rightarrow> bool" where
  "delivered st s R \<longleftrightarrow>
     (\<exists>deps. (s, deps) \<in> set (dispatched st) \<and>
        (execute (stepOf (layerPlan st) s) deps = Returns (Array R) \<or>
         execute (stepOf (layerPlan st) s) deps = Promised (Fulfilled (Array R))))"

text \<open>
  How a column of step \<open>s\<close> came to be published. It has \<open>bucket.size\<close> rows and is
  one of: a whole-batch failure, one ErrorValue on every row, with \<open>hasErrors\<close> set; the
  column the step delivered, settled, so that every rejected row holds the ErrorValue of
  its reason, with \<open>hasErrors\<close> set if a row rejected; or, for a sync-and-safe step,
  the very column \<open>execute\<close> returned, stored as it is.
\<close>

definition routed :: "executor \<Rightarrow> stepid \<Rightarrow> column \<Rightarrow> bool" where
  "routed st s xs \<longleftrightarrow>
     length xs = bucket_size st \<and>
     ((hasErrors st \<and> (\<exists>e. xs = broadcast st s e)) \<or>
      (\<exists>R. delivered st s R \<and> xs = map settledEntry R \<and>
         ((\<exists>t\<in>set R. isRejects t) \<longrightarrow> hasErrors st)) \<or>
      (isSyncAndSafe (stepOf (layerPlan st) s) \<and> returnedBy st s xs))"

text \<open>The same for what a waiting continuation holds.\<close>

fun taskRouted :: "executor \<Rightarrow> task \<Rightarrow> bool" where
  "taskRouted st (AwaitExecute s p) =
     (\<exists>deps. (s, deps) \<in> set (dispatched st) \<and>
        execute (stepOf (layerPlan st) s) deps = Promised p)"
| "taskRouted st (AwaitSettled s xs) =
     (length xs = bucket_size st \<and>
      ((hasErrors st \<and> (\<exists>e. xs = broadcast st s e)) \<or> delivered st s xs))"

text \<open>
  A column the executor was given from outside: \<open>noDepsList\<close>, or a column of the store
  \<open>store0\<close> the bucket came with.
\<close>

definition supplied :: "(stepid \<rightharpoonup> column) \<Rightarrow> executor \<Rightarrow> column \<Rightarrow> bool" where
  "supplied store0 st d \<longleftrightarrow> d = noDepsList st \<or> (\<exists>s. store0 s = Some d)"

text \<open>
  Every column is accounted for: one in the store was there from the start or was routed
  there, every continuation waits on what a dispatched step delivered, and every
  dependency column handed to a step was supplied from outside or routed into the store.
\<close>

definition accounted :: "(stepid \<rightharpoonup> column) \<Rightarrow> executor \<Rightarrow> bool" where
  "accounted store0 st \<longleftrightarrow>
     (\<forall>s xs. store st s = Some xs \<longrightarrow> store0 s = Some xs \<or> routed st s xs) \<and>
     (\<forall>t\<in>set (tasks st). taskRouted st t) \<and>
     (\<forall>s deps d. (s, deps) \<in> set (dispatched st) \<longrightarrow> Some d \<in> set deps \<longrightarrow>
        supplied store0 st d \<or> (\<exists>s'. routed st s' d))"

text \<open>What only grows from one moment of a run to a later one.\<close>

definition grows :: "executor \<Rightarrow> executor \<Rightarrow> bool" where
  "grows a b \<longleftrightarrow>
     layerPlan b = layerPlan a \<and> bucket_size b = bucket_size a \<and>
     noDepsList b = noDepsList a \<and> set (dispatched a) \<subseteq> set (dispatched b) \<and>
     (hasErrors a \<longrightarrow> hasErrors b)"

text \<open>
  No step is dispatched twice, a dispatched step is in progress or no longer pending,
  and every dispatched step was given a column for each of its dependencies.
\<close>

definition dispatchedOnce :: "executor \<Rightarrow> bool" where
  "dispatchedOnce st \<longleftrightarrow>
     distinct (map fst (dispatched st)) \<and>
     (\<forall>t\<in>dispatchedSteps st. t \<in> inProgressSteps st \<or> t \<notin> pendingSteps st) \<and>
     (\<forall>(s, deps)\<in>set (dispatched st). None \<notin> set deps)"

text \<open>What the loop over \<open>startSteps\<close> knows of a start step in a well-formed plan.\<close>

definition freshStart :: "stepid \<Rightarrow> executor \<Rightarrow> bool" where
  "freshStart s st \<longleftrightarrow> s \<notin> dispatchedSteps st \<and> materialized st s"

text \<open>
  A measure of the work left: continuations still to run (one on a step's promise is
  followed by one on \<open>Promise.allSettled\<close>) and pending steps not yet dispatched.
\<close>

fun taskWeight :: "task \<Rightarrow> nat" where
  "taskWeight (AwaitExecute s p) = 2"
| "taskWeight (AwaitSettled s xs) = 1"

definition weight :: "executor \<Rightarrow> nat" where
  "weight st =
     sum_list (map taskWeight (tasks st)) + 3 * card (pendingSteps st - inProgressSteps st)"

section \<open>Example steps and buckets\<close>

definition mkStep ::
  "stepid list \<Rightarrow> stepid list \<Rightarrow> bool \<Rightarrow> (column option list \<Rightarrow> exec_result) \<Rightarrow> step" where
  "mkStep ds dp safe f =
     \<lparr>dependencies = ds, dependentPlans = dp, isSyncAndSafe = safe, execute = f\<rparr>"

text \<open>Adds ten to every number of its first dependency column.\<close>

definition plusTen :: "column option list \<Rightarrow> exec_result" where
  "plusTen deps =
     (case deps of
        Some xs # _ \<Rightarrow>
          Returns (Array (map (\<lambda>v. case v of Plain (Num n) \<Rightarrow> Plain (Num (n + 10)) | _ \<Rightarrow> v) xs))
      | _ \<Rightarrow> Throws (StepError ''no input''))"

definition boom :: crystal_error where
  "boom = newCrystalError (StepError ''boom'')"

definition emptyBucket :: bucket where
  "emptyBucket =
     \<lparr>bucket_size = 0, store = Map.empty, noDepsList = [],
      layerPlan = \<lparr>steps = [], startSteps = [], children = [],
                   stepOf = (\<lambda>s. mkStep [] [] True plusTen)\<rparr>,
      hasErrors = False, isComplete = False\<rparr>"

definition always :: "column \<Rightarrow> column option list \<Rightarrow> exec_result" where
  "always xs deps = Returns (Array xs)"

definition raises :: "error \<Rightarrow> column option list \<Rightarrow> exec_result" where
  "raises e deps = Throws e"

text \<open>The same step, answering through a promise.\<close>

definition asyncOf :: "(column option list \<Rightarrow> exec_result) \<Rightarrow> column option list \<Rightarrow> exec_result" where
  "asyncOf f deps =
     (case f deps of
        Returns r \<Rightarrow> Promised (Fulfilled r)
      | Throws e \<Rightarrow> Promised (Rejected e)
      | Promised p \<Rightarrow> Promised p)"

text \<open>A bucket of \<open>n\<close> rows over the steps \<open>0, 1, ...\<close> of a list, with an empty store.\<close>

definition bucketOf :: "nat \<Rightarrow> step list \<Rightarrow> stepid list \<Rightarrow> reason list \<Rightarrow> bucket" where
  "bucketOf n table starts reasons =
     \<lparr>bucket_size = n, store = Map.empty, noDepsList = replicate n (Plain Undefined),
      layerPlan =
        \<lparr>steps = [0..<length table], startSteps = starts, children = reasons,
         stepOf = (\<lambda>s. if s < length table then table ! s else mkStep [] [] True (always []))\<rparr>,
      hasErrors = False, isComplete = False\<rparr>"

text \<open>One step, and a child layer plan for the items of a list.\<close>

definition listBucket :: bucket where
  "listBucket = bucketOf 1 [mkStep [] [] True (always [Plain (Num 1)])] [0] [ListItem]"

text \<open>Step 0 returns \<open>[1, 2, 3]\<close>; step 1 depends on it and raises.\<close>

definition catastropheBucket :: bucket where
  "catastropheBucket =
     bucketOf 3
       [mkStep [] [1] True (always [Plain (Num 1), Plain (Num 2), Plain (Num 3)]),
        mkStep [0] [] True (raises (StepError ''boom''))]
       [0] []"

text \<open>One step that returns \<open>null\<close>, directly or through a promise.\<close>

definition nullBucket :: bucket where
  "nullBucket = bucketOf 2 [mkStep [] [] True (\<lambda>deps. Returns Nullish)] [0] []"

definition asyncNullBucket :: bucket where
  "asyncNullBucket = bucketOf 2 [mkStep [] [] False (\<lambda>deps. Promised (Fulfilled Nullish))] [0] []"

text \<open>
  The diamond: step 0 feeds step 1 (asynchronous) and step 2 (synchronous), and step 3
  depends on both, in that order.
\<close>

definition diamondBucket :: bucket where
  "diamondBucket =
     bucketOf 2
       [mkStep [] [1, 2] True (always [Plain (Num 1), Plain (Num 2)]),
        mkStep [0] [3] False (asyncOf plusTen),
        mkStep [0] [3] True (always [Plain (Num 7), Plain (Num 8)]),
        mkStep [1, 2] [] True plusTen]
       [0] []"

text \<open>Step 0 returns \<open>[1, <rejected>, 3]\<close>; step 1 depends on it and adds ten.\<close>

definition rowErrorBucket :: bucket where
  "rowErrorBucket =
     bucketOf 3
       [mkStep [] [1] False (always [Plain (Num 1), Rejects (StepError ''boom''), Plain (Num 3)]),
        mkStep [0] [] True plusTen]
       [0] []"

text \<open>One step that raises; and a bucket in the middle of a run, with one continuation waiting.\<close>

definition raiseBucket :: bucket where
  "raiseBucket = bucketOf 3 [mkStep [] [] True (raises (StepError ''boom''))] [0] []"

definition awaiting :: "bucket \<Rightarrow> task \<Rightarrow> executor" where
  "awaiting b t = (initial b)\<lparr>inProgressSteps := {0}, tasks := [t]\<rparr>"


text \<open>One sync-and-safe step that returns a column one row short.\<close>

definition shortBucket :: bucket where
  "shortBucket = bucketOf 2 [mkStep [] [] True (always [Plain (Num 1)])] [0] []"

text \<open>
  A bucket that comes with \<open>hasErrors\<close> set and the column \<open>[1, 2]\<close> of step 0 in its
  store, no ErrorValue anywhere; its one step, step 1, adds ten to that column.
\<close>

definition flaggedBucket :: bucket where
  "flaggedBucket =
     \<lparr>bucket_size = 2, store = [0 \<mapsto> [Plain (Num 1), Plain (Num 2)]],
      noDepsList = replicate 2 (Plain Undefined),
      layerPlan = \<lparr>steps = [1], startSteps = [1], children = [],
                   stepOf = (\<lambda>s. mkStep [0] [] True plusTen)\<rparr>,
      hasErrors = True, isComplete = False\<rparr>"

text \<open>
  Step 0 returns \<open>[1, ERR, 3]\<close>, the ErrorValue by value, as a sync-and-safe step or
  not; step 1 depends on it and adds ten.
\<close>

definition forgedBucket :: "bool \<Rightarrow> bucket" where
  "forgedBucket safe =
     bucketOf 3
       [mkStep [] [1] safe (always [Plain (Num 1), Plain (ErrV boom), Plain (Num 3)]),
        mkStep [0] [] True plusTen]
       [0] []"

text \<open>
  A bucket that comes with the column \<open>[1, ERR, 3]\<close> of step 0 in its store and
  \<open>hasErrors\<close> false; its one step, step 1, adds ten to that column.
\<close>

definition preloadedBucket :: bucket where
  "preloadedBucket =
     \<lparr>bucket_size = 3,
      store = [0 \<mapsto> [Plain (Num 1), Plain (ErrV boom), Plain (Num 3)]],
      noDepsList = replicate 3 (Plain Undefined),
      layerPlan = \<lparr>steps = [1], startSteps = [1], children = [],
                   stepOf = (\<lambda>s. mkStep [0] [] True plusTen)\<rparr>,
      hasErrors = False, isComplete = False\<rparr>"

text \<open>One sync-and-safe step that returns \<open>[1, <rejected>, 3]\<close>, against its promise.\<close>

definition unsafeBucket :: bucket where
  "unsafeBucket =
     bucketOf 3
       [mkStep [] [] True (always [Plain (Num 1), Rejects (StepError ''boom''), Plain (Num 3)])]
       [0] []"
section \<open>The error-aware invoker: its scan throws\<close>

lemma scanColumn_Cons: "scanColumn (v # depList) index acc = Inl ReferenceError"
  by (cases acc) (simp add: isCrystalError_call_def)

lemma scanColumn_Inr: "scanColumn depList index acc = Inr acc' \<Longrightarrow> depList = [] \<and> acc' = acc"
  by (cases depList) (simp_all add: scanColumn_Cons)

lemma scanDependencies_cases:
  "scanDependencies deps acc = Inr acc \<or> scanDependencies deps acc = Inl ReferenceError \<or>
   scanDependencies deps acc = Inl TypeError"
proof (induction deps)
  case Nil
  show ?case by simp
next
  case (Cons d deps)
  show ?case
  proof (cases d)
    case None
    then show ?thesis by simp
  next
    case (Some depList)
    show ?thesis
    proof (cases depList)
      case Nil
      with Some Cons show ?thesis by simp
    next
      case (Cons v rest)
      with Some show ?thesis by (simp add: scanColumn_Cons)
    qed
  qed
qed

lemma scanDependencies_empty:
  "list_all (\<lambda>d. d = Some []) deps \<Longrightarrow> scanDependencies deps acc = Inr acc"
  by (induction deps) simp_all

lemma invoker_cases:
  "reallyExecuteStepWithErrors step deps = execute step deps \<or>
   reallyExecuteStepWithErrors step deps = Throws ReferenceError \<or>
   reallyExecuteStepWithErrors step deps = Throws TypeError"
  using scanDependencies_cases [of deps "(False, Map.empty)"]
  by (auto simp: reallyExecuteStepWithErrors_def reallyExecuteStepWithNoErrors_def)

lemma invoker_throws:
  "reallyExecuteStepWithErrors step (Some (v # depList) # deps) = Throws ReferenceError"
  by (simp add: reallyExecuteStepWithErrors_def scanColumn_Cons)

lemma invoker_empty:
  "list_all (\<lambda>d. d = Some []) deps \<Longrightarrow>
   reallyExecuteStepWithErrors step deps = execute step deps"
  by (simp add: reallyExecuteStepWithErrors_def reallyExecuteStepWithNoErrors_def
      scanDependencies_empty)

lemma invoke_direct:
  "hasErrors st \<longrightarrow> list_all (\<lambda>d. d = Some []) (depsFor st s) \<Longrightarrow>
   invoke st s = execute (stepOf (layerPlan st) s) (depsFor st s)"
  by (simp add: invoke_def invoker_empty reallyExecuteStepWithNoErrors_def)

lemma invoke_throws:
  "hasErrors st \<Longrightarrow> depsFor st s = Some (v # depList) # deps \<Longrightarrow>
   invoke st s = Throws ReferenceError"
  by (simp add: invoke_def invoker_throws)

lemma invoke_Returns:
  "invoke st s = Returns r \<Longrightarrow> execute (stepOf (layerPlan st) s) (depsFor st s) = Returns r"
  using invoker_cases [of "stepOf (layerPlan st) s" "depsFor st s"]
  by (auto simp: invoke_def reallyExecuteStepWithNoErrors_def split: if_splits)

lemma invoke_Promised:
  "invoke st s = Promised p \<Longrightarrow> execute (stepOf (layerPlan st) s) (depsFor st s) = Promised p"
  using invoker_cases [of "stepOf (layerPlan st) s" "depsFor st s"]
  by (auto simp: invoke_def reallyExecuteStepWithNoErrors_def split: if_splits)

section \<open>Settling a column\<close>

lemma settleAll_column:
  "fst (settleAll s rs st) =
     map (\<lambda>t. case t of Plain v \<Rightarrow> Plain v | Fulfills v \<Rightarrow> Plain v
                | Rejects reason \<Rightarrow> Plain (ErrV (newCrystalError_call reason s))) rs"
  by (induction rs arbitrary: st) (simp_all add: case_prod_beta split: entry.splits)

section \<open>The scheduler refines the transition system\<close>


lemma settleAll_state:
  "snd (settleAll s rs st) = st\<lparr>hasErrors := hasErrors st \<or> (\<exists>t\<in>set rs. isRejects t)\<rparr>"
  by (induction rs arbitrary: st) (simp_all add: case_prod_beta isRejects_def split: entry.splits)

lemma dispatches_mono: "dispatches Q a b \<Longrightarrow> (\<And>s st. Q s st \<Longrightarrow> Q' s st) \<Longrightarrow> dispatches Q' a b"
proof (induction rule: dispatches.induct)
  case (async s st p)
  then have "Q' s st \<or> suitable st s" by blast
  with async show ?case by (intro dispatches.async)
next
  case (slow s st xs)
  then have "Q' s st \<or> suitable st s" by blast
  with slow show ?case by (intro dispatches.slow)
next
  case (fast s st xs)
  then have "Q' s st \<or> suitable st s" by blast
  with fast show ?case by (intro dispatches.fast)
qed

text \<open>executeStepBody in terms of the named values\<close>

lemma completedStep_valid:
  "length xs = bucket_size st \<Longrightarrow>
   completedStep exec s (Array xs) nne st =
     (if isSyncAndSafe (stepOf (layerPlan st) s) \<and> nne then
        map_option Inr (reallyCompletedStep exec s (st\<lparr>store := (store st)(s \<mapsto> xs)\<rparr>))
      else Some (Inr (True, st\<lparr>tasks := tasks st @ [AwaitSettled s xs]\<rparr>)))"
  by (simp add: completedStep_def)

lemma completedStep_invalid:
  "shapeError (bucket_size st) s r = Some e \<Longrightarrow> completedStep exec s r nne st = Some (Inl e)"
  by (auto simp: completedStep_def shapeError_def split: returned.splits if_splits)

lemma shapeError_None: "shapeError n s r = None \<longleftrightarrow> (\<exists>xs. r = Array xs \<and> length xs = n)"
  by (auto simp: shapeError_def split: returned.splits)

lemma length_broadcast [simp]: "length (broadcast st s e) = bucket_size st"
  by (simp add: broadcast_def arrayOfLength_def)


lemma syncColumn_length: "syncColumn st s = Some xs \<Longrightarrow> length xs = bucket_size st"
  by (auto simp: syncColumn_def shapeError_def split: exec_result.splits returned.splits if_splits option.splits)

lemma invoke_cases: "(\<exists>p. invoke st s = Promised p) \<or> (\<exists>xs. syncColumn st s = Some xs)"
  by (auto simp: syncColumn_def shapeError_def split: exec_result.splits returned.splits option.splits)

lemma executeStepBody_inProgress:
  "s \<in> inProgressSteps st \<Longrightarrow> executeStepBody exec s st = Some (Inr (False, st))"
  by (simp add: executeStepBody_def)

lemma executeStepBody_unfold:
  "s \<notin> inProgressSteps st \<Longrightarrow>
   executeStepBody exec s st =
      (case (case invoke st s of
               Throws e \<Rightarrow> Some (Inl e)
             | Promised p \<Rightarrow>
                 Some (Inr (True, st\<lparr>inProgressSteps := insert s (inProgressSteps st),
                                      dispatched := dispatched st @ [(s, depsFor st s)],
                                      tasks := tasks st @ [AwaitExecute s p]\<rparr>))
             | Returns values \<Rightarrow>
                 completedStep exec s values True
                   (st\<lparr>inProgressSteps := insert s (inProgressSteps st),
                       dispatched := dispatched st @ [(s, depsFor st s)]\<rparr>)) of
         None \<Rightarrow> None
       | Some (Inr r) \<Rightarrow> Some (Inr r)
       | Some (Inl error) \<Rightarrow>
           completedStep exec s (Array (broadcast st s error)) True
             (st\<lparr>inProgressSteps := insert s (inProgressSteps st),
                 dispatched := dispatched st @ [(s, depsFor st s)],
                 hasErrors := True\<rparr>))"
  unfolding executeStepBody_def invoke_def depsFor_def Let_def broadcast_def
  by (simp cong: exec_result.case_cong option.case_cong sum.case_cong)

lemma executeStepBody_async:
  "s \<notin> inProgressSteps st \<Longrightarrow> invoke st s = Promised p \<Longrightarrow>
   executeStepBody exec s st =
     Some (Inr (True, st\<lparr>inProgressSteps := insert s (inProgressSteps st),
                          dispatched := dispatched st @ [(s, depsFor st s)],
                          tasks := tasks st @ [AwaitExecute s p]\<rparr>))"
  by (simp add: executeStepBody_unfold)

lemma executeStepBody_sync:
  assumes "s \<notin> inProgressSteps st" and "syncColumn st s = Some xs"
  shows "executeStepBody exec s st =
     (if isSyncAndSafe (stepOf (layerPlan st) s) then
        map_option Inr
          (reallyCompletedStep exec s
             (st\<lparr>inProgressSteps := insert s (inProgressSteps st),
                  dispatched := dispatched st @ [(s, depsFor st s)],
                  hasErrors := hasErrors st \<or> caught st s \<noteq> None,
                  store := (store st)(s \<mapsto> xs)\<rparr>))
      else
        Some (Inr (True, st\<lparr>inProgressSteps := insert s (inProgressSteps st),
                             dispatched := dispatched st @ [(s, depsFor st s)],
                             hasErrors := hasErrors st \<or> caught st s \<noteq> None,
                             tasks := tasks st @ [AwaitSettled s xs]\<rparr>)))"
proof -
  let ?st1 = "st\<lparr>inProgressSteps := insert s (inProgressSteps st),
                  dispatched := dispatched st @ [(s, depsFor st s)]\<rparr>"
  note body = executeStepBody_unfold [OF assms(1), of exec]
  show ?thesis
  proof (cases "invoke st s")
    case (Throws e)
    with assms(2) have xs: "xs = broadcast st s e" and c: "caught st s = Some e"
      by (simp_all add: syncColumn_def caught_def)
    show ?thesis
      unfolding body Throws by (simp add: completedStep_valid xs c)
  next
    case (Promised p)
    with assms(2) show ?thesis by (simp add: syncColumn_def)
  next
    case (Returns r)
    show ?thesis
    proof (cases "shapeError (bucket_size st) s r")
      case None
      then obtain ys where r: "r = Array ys" and len: "length ys = bucket_size st"
        by (auto simp: shapeError_None)
      with assms(2) Returns None have xs: "xs = ys" by (simp add: syncColumn_def)
      from Returns None have c: "caught st s = None" by (simp add: caught_def)
      show ?thesis
        unfolding body Returns r
        by (auto simp: completedStep_valid len xs c split: option.splits sum.splits)
    next
      case (Some e)
      with assms(2) Returns have xs: "xs = broadcast st s e" by (simp add: syncColumn_def)
      from Returns Some have c: "caught st s = Some e" by (simp add: caught_def)
      have "completedStep exec s r True ?st1 = Some (Inl e)"
        using Some by (intro completedStep_invalid) simp
      then show ?thesis
        unfolding body Returns by (simp add: completedStep_valid xs c)
    qed
  qed
qed


lemma dispatches_static:
  "dispatches Q a b \<Longrightarrow>
   layerPlan b = layerPlan a \<and> bucket_size b = bucket_size a \<and> noDepsList b = noDepsList a \<and>
   isComplete b = isComplete a \<and> rejection b = rejection a"
  by (induction rule: dispatches.induct) simp_all

lemma dispatches_star_static:
  "(dispatches Q)\<^sup>*\<^sup>* a b \<Longrightarrow>
   layerPlan b = layerPlan a \<and> bucket_size b = bucket_size a \<and> noDepsList b = noDepsList a \<and>
   isComplete b = isComplete a \<and> rejection b = rejection a"
  by (induction rule: rtranclp_induct) (auto dest: dispatches_static)

lemma isDependent_cong: "layerPlan b = layerPlan a \<Longrightarrow> isDependent b = isDependent a"
  by (simp add: isDependent_def fun_eq_iff)

lemma dispatchDependents_sound:
  assumes exec: "\<And>t st r. Q t st \<or> suitable st t \<Longrightarrow> exec t st = Some r \<Longrightarrow>
                   \<exists>b st'. r = Inr (b, st') \<and> (dispatches Q)\<^sup>*\<^sup>* st st'"
  shows "dispatchDependents exec ts (p, st) = Some (p', st') \<Longrightarrow>
         \<forall>t\<in>set ts. isDependent st t \<Longrightarrow> (dispatches Q)\<^sup>*\<^sup>* st st'"
proof (induction ts arbitrary: p st)
  case Nil
  then show ?case by simp
next
  case (Cons t ts)
  show ?case
  proof (cases "t \<in> pendingSteps st \<and>
      list_all (\<lambda>depId. store st depId \<noteq> None) (dependencies (stepOf (layerPlan st) t))")
    case False
    with Cons.prems have "dispatchDependents exec ts (p, st) = Some (p', st')"
      by (auto simp: Let_def split: if_splits)
    with Cons.IH Cons.prems(2) show ?thesis by simp
  next
    case True
    with Cons.prems(2) have guard: "suitable st t" by (simp add: suitable_def)
    from True Cons.prems(1) obtain q st1 where
      first: "rejectOnThrow (exec t) st = Some (q, st1)" and
      rest: "dispatchDependents exec ts (p \<or> q, st1) = Some (p', st')"
      by (auto simp: Let_def split: option.splits)
    from first obtain r where r: "exec t st = Some r"
      by (auto simp: rejectOnThrow_def split: option.splits)
    from exec [OF _ r] guard obtain b st2 where
      "r = Inr (b, st2)" and run: "(dispatches Q)\<^sup>*\<^sup>* st st2" by blast
    with first r have "st2 = st1" by (simp add: rejectOnThrow_def)
    with run have run1: "(dispatches Q)\<^sup>*\<^sup>* st st1" by simp
    then have "isDependent st1 = isDependent st"
      by (intro isDependent_cong) (simp add: dispatches_star_static)
    with Cons.prems(2) have "\<forall>t\<in>set ts. isDependent st1 t" by simp
    with Cons.IH rest have "(dispatches Q)\<^sup>*\<^sup>* st1 st'" by blast
    with run1 show ?thesis by (rule rtranclp_trans)
  qed
qed

lemma reallyCompletedStep_sound:
  assumes exec: "\<And>t st r. Q t st \<or> suitable st t \<Longrightarrow> exec t st = Some r \<Longrightarrow>
                   \<exists>b st'. r = Inr (b, st') \<and> (dispatches Q)\<^sup>*\<^sup>* st st'"
    and run: "reallyCompletedStep exec f st = Some (p, st')"
  shows "(dispatches Q)\<^sup>*\<^sup>*
           (st\<lparr>inProgressSteps := inProgressSteps st - {f},
               pendingSteps := pendingSteps st - {f}\<rparr>) st'"
proof -
  define st1 where "st1 = st\<lparr>inProgressSteps := inProgressSteps st - {f},
                             pendingSteps := pendingSteps st - {f}\<rparr>"
  have lp: "layerPlan st1 = layerPlan st" by (simp add: st1_def)
  from run have eq:
    "(if pendingSteps st1 = {} then Some (False, st1)
      else dispatchDependents exec (dependentPlans (stepOf (layerPlan st1) f)) (False, st1)) =
     Some (p, st')"
    unfolding reallyCompletedStep_def Let_def st1_def .
  have "(dispatches Q)\<^sup>*\<^sup>* st1 st'"
  proof (cases "pendingSteps st1 = {}")
    case True
    with eq have "st' = st1" by simp
    then show ?thesis by simp
  next
    case False
    with eq have
      "dispatchDependents exec (dependentPlans (stepOf (layerPlan st1) f)) (False, st1) =
         Some (p, st')"
      by simp
    moreover have "\<forall>t\<in>set (dependentPlans (stepOf (layerPlan st1) f)). isDependent st1 t"
      by (auto simp: isDependent_def)
    ultimately show ?thesis
      using exec by (rule dispatchDependents_sound [rotated])
  qed
  then show ?thesis by (simp add: st1_def)
qed

lemma executeStepBody_sound:
  assumes exec: "\<And>t st r. Q t st \<or> suitable st t \<Longrightarrow> exec t st = Some r \<Longrightarrow>
                   \<exists>b st'. r = Inr (b, st') \<and> (dispatches Q)\<^sup>*\<^sup>* st st'"
    and guard: "Q s st \<or> suitable st s"
    and run: "executeStepBody exec s st = Some r"
  shows "\<exists>b st'. r = Inr (b, st') \<and> (dispatches Q)\<^sup>*\<^sup>* st st'"
proof (cases "s \<in> inProgressSteps st")
  case True
  with run have "r = Inr (False, st)" by (simp add: executeStepBody_inProgress)
  then show ?thesis by blast
next
  case False
  from invoke_cases [of st s] show ?thesis
  proof (elim disjE exE)
    fix p assume p: "invoke st s = Promised p"
    from dispatches.async [where Q = Q, OF False guard p] run show ?thesis
      by (auto simp: executeStepBody_async [OF False p])
  next
    fix xs assume xs: "syncColumn st s = Some xs"
    note body = executeStepBody_sync [OF False xs, of exec]
    show ?thesis
    proof (cases "isSyncAndSafe (stepOf (layerPlan st) s)")
      case safe: False
      from dispatches.slow [where Q = Q, OF False guard xs safe] run show ?thesis
        by (auto simp: body safe)
    next
      case safe: True
      let ?st1 = "st\<lparr>inProgressSteps := insert s (inProgressSteps st),
                  dispatched := dispatched st @ [(s, depsFor st s)],
                  hasErrors := hasErrors st \<or> caught st s \<noteq> None,
                  store := (store st)(s \<mapsto> xs)\<rparr>"
      from run obtain b st' where r: "r = Inr (b, st')" and
        rc: "reallyCompletedStep exec s ?st1 = Some (b, st')"
        by (auto simp: body safe)
      have tail: "(dispatches Q)\<^sup>*\<^sup>*
           (?st1\<lparr>inProgressSteps := inProgressSteps ?st1 - {s},
                 pendingSteps := pendingSteps ?st1 - {s}\<rparr>) st'"
        by (rule reallyCompletedStep_sound [where Q = Q, OF _ rc]) (rule exec; assumption)
      have "dispatches Q st
           (?st1\<lparr>inProgressSteps := inProgressSteps ?st1 - {s},
                 pendingSteps := pendingSteps ?st1 - {s}\<rparr>)"
        using dispatches.fast [where Q = Q, OF False guard xs safe] False by simp
      from this tail have "(dispatches Q)\<^sup>*\<^sup>* st st'"
        by (rule converse_rtranclp_into_rtranclp)
      with r show ?thesis by blast
    qed
  qed
qed

lemma executeStep_sound:
  "Q s st \<or> suitable st s \<Longrightarrow> executeStep fuel s st = Some r \<Longrightarrow>
   \<exists>b st'. r = Inr (b, st') \<and> (dispatches Q)\<^sup>*\<^sup>* st st'"
proof (induction fuel arbitrary: s st r)
  case 0
  then show ?case by simp
next
  case (Suc fuel)
  from Suc.prems(2) have body: "executeStepBody (executeStep fuel) s st = Some r" by simp
  show ?case
    by (rule executeStepBody_sound [where Q = Q, OF _ Suc.prems(1) body]) (rule Suc.IH; assumption)
qed

section \<open>Continuations and whole runs\<close>


lemma settleAll_fst_indep: "fst (settleAll s rs st) = fst (settleAll s rs st')"
  by (simp add: settleAll_column)

lemma rejectOnThrow_Inr: "cb st = Some (Inr r) \<Longrightarrow> rejectOnThrow cb st = Some r"
  by (simp add: rejectOnThrow_def)

lemma rejectOnThrow_Inl: "cb st = Some (Inl e) \<Longrightarrow> rejectOnThrow cb st = Some (True, reject e st)"
  by (simp add: rejectOnThrow_def)

lemma fire_idle: "\<not> i < length (tasks st) \<Longrightarrow> fire fuel i st = Some st"
  by (simp add: fire_def)

lemma fire_sound:
  assumes i: "i < length (tasks st)" and run: "fire fuel i st = Some st'"
  shows "\<exists>st1. settles st st1 \<and> (dispatches (\<lambda>s st. False))\<^sup>*\<^sup>* st1 st'"
proof -
  let ?st0 = "st\<lparr>tasks := take i (tasks st) @ drop (Suc i) (tasks st)\<rparr>"
  from i run have rt: "runTask fuel (tasks st ! i) ?st0 = Some st'" by (simp add: fire_def)
  show ?thesis
  proof (cases "tasks st ! i")
    case (AwaitExecute s p)
    show ?thesis
    proof (cases p)
      case (Rejected e)
      have "completedStep (executeStep fuel) s (Array (broadcast st s e)) False
              (?st0\<lparr>hasErrors := True\<rparr>) =
            Some (Inr (True, ?st0\<lparr>hasErrors := True,
               tasks := tasks ?st0 @ [AwaitSettled s (broadcast st s e)]\<rparr>))"
        by (subst completedStep_valid) simp_all
      with rt AwaitExecute Rejected have
        "st' = st\<lparr>tasks := take i (tasks st) @ drop (Suc i) (tasks st) @
                          [AwaitSettled s (broadcast st s e)],
                  hasErrors := True\<rparr>"
        by (auto simp: runTask_def rejectOnThrow_def broadcast_def)
      moreover from i AwaitExecute Rejected have "settles st \<dots>"
        by (intro settles.rejected) simp_all
      ultimately show ?thesis by blast
    next
      case (Fulfilled r)
      show ?thesis
      proof (cases "shapeError (bucket_size st) s r")
        case (Some e)
        then have "completedStep (executeStep fuel) s r False ?st0 = Some (Inl e)"
          by (intro completedStep_invalid) simp
        with rt AwaitExecute Fulfilled have "st' = reject e (without i st)"
          by (auto simp: runTask_def rejectOnThrow_def without_def)
        moreover from i AwaitExecute Fulfilled Some have "settles st \<dots>"
          by (intro settles.misshapen) simp_all
        ultimately show ?thesis by blast
      next
        case None
        then obtain xs where r: "r = Array xs" and len: "length xs = bucket_size st"
          by (auto simp: shapeError_None)
        have "completedStep (executeStep fuel) s (Array xs) False ?st0 =
            Some (Inr (True, ?st0\<lparr>tasks := tasks ?st0 @ [AwaitSettled s xs]\<rparr>))"
          using len by (subst completedStep_valid) simp_all
        with rt AwaitExecute Fulfilled r have
          "st' = st\<lparr>tasks := take i (tasks st) @ drop (Suc i) (tasks st) @ [AwaitSettled s xs]\<rparr>"
          by (auto simp: runTask_def rejectOnThrow_def)
        moreover from i AwaitExecute Fulfilled r len have "settles st \<dots>"
          by (intro settles.fulfilled) simp_all
        ultimately show ?thesis by blast
      qed
    qed
  next
    case (AwaitSettled s rs)
    let ?st1 = "st\<lparr>tasks := take i (tasks st) @ drop (Suc i) (tasks st),
               hasErrors := hasErrors st \<or> (\<exists>t\<in>set rs. isRejects t),
               store := (store st)(s \<mapsto> fst (settleAll s rs st))\<rparr>"
    have "settledStep (executeStep fuel) s rs ?st0 = reallyCompletedStep (executeStep fuel) s ?st1"
      using settleAll_state [of s rs ?st0] settleAll_fst_indep [of s rs ?st0 st]
      by (simp add: settledStep_def case_prod_beta)
    with rt AwaitSettled obtain p where
      rc: "reallyCompletedStep (executeStep fuel) s ?st1 = Some (p, st')"
      by (auto simp: runTask_def)
    have "(dispatches (\<lambda>s st. False))\<^sup>*\<^sup>*
           (?st1\<lparr>inProgressSteps := inProgressSteps ?st1 - {s},
               pendingSteps := pendingSteps ?st1 - {s}\<rparr>) st'"
      by (rule reallyCompletedStep_sound [where Q = "\<lambda>s st. False", OF _ rc])
         (rule executeStep_sound; assumption)
    moreover from i AwaitSettled have "settles st
           (?st1\<lparr>inProgressSteps := inProgressSteps ?st1 - {s},
               pendingSteps := pendingSteps ?st1 - {s}\<rparr>)"
      using settles.published [OF i AwaitSettled] by simp
    ultimately show ?thesis by blast
  qed
qed

lemma dispatches_advances:
  assumes mono: "\<And>s st. Q s st \<Longrightarrow> Q' s st" and run: "(dispatches Q)\<^sup>*\<^sup>* a b"
  shows "(advances Q')\<^sup>*\<^sup>* a b"
  using run
proof (induction rule: rtranclp_induct)
  case base
  show ?case by simp
next
  case (step y z)
  from step.hyps(2) mono have "dispatches Q' y z" by (rule dispatches_mono)
  then have "advances Q' y z" by (simp add: advances_def)
  with step.IH show ?case by (rule rtranclp.rtrancl_into_rtrancl)
qed

lemma fire_advances: "fire fuel i st = Some st' \<Longrightarrow> (advances Q)\<^sup>*\<^sup>* st st'"
proof (cases "i < length (tasks st)")
  case False
  assume "fire fuel i st = Some st'"
  with False show ?thesis by (simp add: fire_idle)
next
  case True
  assume "fire fuel i st = Some st'"
  from fire_sound [OF True this] obtain st1 where
    "settles st st1" "(dispatches (\<lambda>s st. False))\<^sup>*\<^sup>* st1 st'" by blast
  then have "advances Q st st1" "(advances Q)\<^sup>*\<^sup>* st1 st'"
    by (auto simp: advances_def intro: dispatches_advances [rotated])
  then show ?thesis by (rule converse_rtranclp_into_rtranclp)
qed

lemma runSchedule_advances: "runSchedule fuel sch st = Some st' \<Longrightarrow> (advances Q)\<^sup>*\<^sup>* st st'"
proof (induction sch arbitrary: st)
  case Nil
  then show ?case by simp
next
  case (Cons i sch)
  then obtain st1 where "fire fuel i st = Some st1" "runSchedule fuel sch st1 = Some st'"
    by (auto split: option.splits)
  with Cons.IH fire_advances [of fuel i st st1 Q] show ?case
    by (blast intro: rtranclp_trans)
qed

lemma runSchedule_append:
  "runSchedule fuel (sch @ sch') st =
     (case runSchedule fuel sch st of None \<Rightarrow> None | Some st1 \<Rightarrow> runSchedule fuel sch' st1)"
  by (induction sch arbitrary: st) (auto split: option.splits)

lemma dispatchStartSteps_sound:
  "dispatchStartSteps fuel ss (p, st) = Some (p', st') \<Longrightarrow> (dispatches (\<lambda>s st. True))\<^sup>*\<^sup>* st st'"
proof (induction ss arbitrary: p st)
  case Nil
  then show ?case by simp
next
  case (Cons s ss)
  from Cons.prems obtain q st1 where
    first: "rejectOnThrow (executeStep fuel s) st = Some (q, st1)" and
    rest: "dispatchStartSteps fuel ss (p \<or> q, st1) = Some (p', st')"
    by (auto split: option.splits)
  from first obtain r where r: "executeStep fuel s st = Some r"
    by (auto simp: rejectOnThrow_def split: option.splits)
  from executeStep_sound [where Q = "\<lambda>s st. True", OF _ r] obtain b st2 where
    "r = Inr (b, st2)" and run: "(dispatches (\<lambda>s st. True))\<^sup>*\<^sup>* st st2" by blast
  with first r have "st2 = st1" by (simp add: rejectOnThrow_def)
  with run Cons.IH [OF rest] show ?case by (auto intro: rtranclp_trans)
qed

lemma executeSamePhaseChildren_state: "executeSamePhaseChildren st = Inr (p, st') \<Longrightarrow> st' = st"
  by (auto simp: executeSamePhaseChildren_def split: if_splits sum.splits)

lemma settled_state: "settled st = (out, st') \<Longrightarrow> st' = st"
  by (auto simp: settled_def split: option.splits if_splits sum.splits 
      dest: executeSamePhaseChildren_state)

lemma executeBucket_advances:
  assumes "executeBucket sch b = Some (out, st)"
  shows "(advances (\<lambda>s st. True))\<^sup>*\<^sup>* (initial b) st"
proof -
  from assms obtain p st1 where
    start: "dispatchStartSteps (fuelFor b) (startSteps (layerPlan b)) (False, initial b) = Some (p, st1)"
    by (auto simp: executeBucket_def split: option.splits)
  then have one: "(advances (\<lambda>s st. True))\<^sup>*\<^sup>* (initial b) st1"
    by (intro dispatches_advances [OF _ dispatchStartSteps_sound]) simp
  show ?thesis
  proof (cases p)
    case True
    with assms start obtain st2 where
      "runSchedule (fuelFor b) sch st1 = Some st2" "settled st2 = (out, st)"
      by (auto simp: executeBucket_def)
    with one show ?thesis
      by (auto dest!: settled_state runSchedule_advances [where Q = "\<lambda>s st. True"]
          intro: rtranclp_trans)
  next
    case False
    with assms start have "st = st1"
      by (auto simp: executeBucket_def split: sum.splits dest: executeSamePhaseChildren_state)
    with one show ?thesis by simp
  qed
qed

section \<open>The recursion bound is never reached\<close>


lemma dispatches_pending: "dispatches Q a b \<Longrightarrow> pendingSteps b \<subseteq> pendingSteps a"
  by (induction rule: dispatches.induct) auto

lemma dispatches_star_pending: "(dispatches Q)\<^sup>*\<^sup>* a b \<Longrightarrow> pendingSteps b \<subseteq> pendingSteps a"
  by (induction rule: rtranclp_induct) (auto dest: dispatches_pending)

lemma settles_pending: "settles a b \<Longrightarrow> pendingSteps b \<subseteq> pendingSteps a"
  by (induction rule: settles.induct) (auto simp: reject_def without_def)

lemma advances_star_pending: "(advances Q)\<^sup>*\<^sup>* a b \<Longrightarrow> pendingSteps b \<subseteq> pendingSteps a"
  by (induction rule: rtranclp_induct)
     (auto simp: advances_def dest: dispatches_pending settles_pending)

lemma dispatchDependents_total:
  assumes tot: "\<And>t st. finite (pendingSteps st) \<Longrightarrow> card (pendingSteps st - {t}) < fuel \<Longrightarrow>
                  \<exists>r. exec t st = Some r"
    and sound: "\<And>t st r. suitable st t \<Longrightarrow> exec t st = Some r \<Longrightarrow>
                   \<exists>b st'. r = Inr (b, st') \<and> (dispatches (\<lambda>s st. False))\<^sup>*\<^sup>* st st'"
  shows "finite (pendingSteps st) \<Longrightarrow> card (pendingSteps st) \<le> fuel \<Longrightarrow>
         \<forall>t\<in>set ts. isDependent st t \<Longrightarrow>
         \<exists>r. dispatchDependents exec ts (p, st) = Some r"
proof (induction ts arbitrary: p st)
  case Nil
  then show ?case by simp
next
  case (Cons t ts)
  show ?case
  proof (cases "t \<in> pendingSteps st \<and>
      list_all (\<lambda>depId. store st depId \<noteq> None) (dependencies (stepOf (layerPlan st) t))")
    case False
    from Cons.IH [OF Cons.prems(1,2), of p] Cons.prems(3) obtain r where
      "dispatchDependents exec ts (p, st) = Some r" by auto
    with False show ?thesis by (auto simp: Let_def)
  next
    case True
    with Cons.prems(3) have guard: "suitable st t" by (simp add: suitable_def)
    from True Cons.prems(1) have "card (pendingSteps st - {t}) < card (pendingSteps st)"
      by (intro card_Diff1_less) simp_all
    with Cons.prems(2) have "card (pendingSteps st - {t}) < fuel" by simp
    from tot [OF Cons.prems(1) this] obtain r where r: "exec t st = Some r" by blast
    from sound [OF guard r] obtain q st1 where
      r': "r = Inr (q, st1)" and run: "(dispatches (\<lambda>s st. False))\<^sup>*\<^sup>* st st1" by blast
    from run have sub: "pendingSteps st1 \<subseteq> pendingSteps st" by (rule dispatches_star_pending)
    with Cons.prems(1) have fin: "finite (pendingSteps st1)" by (rule rev_finite_subset)
    from sub Cons.prems(1,2) have le: "card (pendingSteps st1) \<le> fuel"
      by (meson card_mono le_trans)
    from run have "isDependent st1 = isDependent st"
      by (intro isDependent_cong) (simp add: dispatches_star_static)
    with Cons.prems(3) have "\<forall>t\<in>set ts. isDependent st1 t" by simp
    from Cons.IH [OF fin le this, of "p \<or> q"] obtain r2 where
      "dispatchDependents exec ts (p \<or> q, st1) = Some r2" by blast
    with True r r' show ?thesis by (auto simp: Let_def rejectOnThrow_def)
  qed
qed

lemma reallyCompletedStep_total:
  assumes tot: "\<And>t st. finite (pendingSteps st) \<Longrightarrow> card (pendingSteps st - {t}) < fuel \<Longrightarrow>
                  \<exists>r. exec t st = Some r"
    and sound: "\<And>t st r. suitable st t \<Longrightarrow> exec t st = Some r \<Longrightarrow>
                   \<exists>b st'. r = Inr (b, st') \<and> (dispatches (\<lambda>s st. False))\<^sup>*\<^sup>* st st'"
    and fin: "finite (pendingSteps st)" and card: "card (pendingSteps st - {f}) \<le> fuel"
  shows "\<exists>r. reallyCompletedStep exec f st = Some r"
proof -
  define st1 where "st1 = st\<lparr>inProgressSteps := inProgressSteps st - {f},
                             pendingSteps := pendingSteps st - {f}\<rparr>"
  have eq: "reallyCompletedStep exec f st =
    (if pendingSteps st1 = {} then Some (False, st1)
      else dispatchDependents exec (dependentPlans (stepOf (layerPlan st1) f)) (False, st1))"
    unfolding reallyCompletedStep_def Let_def st1_def ..
  have "\<exists>r. dispatchDependents exec (dependentPlans (stepOf (layerPlan st1) f))
      (False, st1) = Some r"
  proof (rule dispatchDependents_total [of fuel exec])
    show "finite (pendingSteps st1)" using fin by (simp add: st1_def)
    show "card (pendingSteps st1) \<le> fuel" using card by (simp add: st1_def)
    show "\<forall>t\<in>set (dependentPlans (stepOf (layerPlan st1) f)). isDependent st1 t"
      by (auto simp: isDependent_def)
  qed (rule tot sound; assumption)+
  then show ?thesis unfolding eq by auto
qed

lemma executeStep_sound_False:
  "suitable st t \<Longrightarrow> executeStep fuel t st = Some r \<Longrightarrow>
   \<exists>b st'. r = Inr (b, st') \<and> (dispatches (\<lambda>s st. False))\<^sup>*\<^sup>* st st'"
  by (rule executeStep_sound [where Q = "\<lambda>s st. False"]) simp_all

lemma executeStep_total:
  "finite (pendingSteps st) \<Longrightarrow> card (pendingSteps st - {s}) < fuel \<Longrightarrow>
   \<exists>r. executeStep fuel s st = Some r"
proof (induction fuel arbitrary: s st)
  case 0
  then show ?case by simp
next
  case (Suc fuel)
  show ?case
  proof (cases "s \<in> inProgressSteps st")
    case True
    then show ?thesis by (simp add: executeStepBody_inProgress)
  next
    case False
    from invoke_cases [of st s] show ?thesis
    proof (elim disjE exE)
      fix p assume "invoke st s = Promised p"
      with False show ?thesis by (simp add: executeStepBody_async)
    next
      fix xs assume xs: "syncColumn st s = Some xs"
      let ?st1 = "st\<lparr>inProgressSteps := insert s (inProgressSteps st),
                  dispatched := dispatched st @ [(s, depsFor st s)],
                  hasErrors := hasErrors st \<or> caught st s \<noteq> None,
                  store := (store st)(s \<mapsto> xs)\<rparr>"
      have "\<exists>r. reallyCompletedStep (executeStep fuel) s ?st1 = Some r"
      proof (rule reallyCompletedStep_total [of fuel])
        show "finite (pendingSteps ?st1)" using Suc.prems(1) by simp
        show "card (pendingSteps ?st1 - {s}) \<le> fuel" using Suc.prems(2) by simp
      qed (rule Suc.IH executeStep_sound_False; assumption)+
      then show ?thesis
        by (auto simp: executeStepBody_sync [OF False xs])
    qed
  qed
qed


lemma card_pending_mono:
  "finite (pendingSteps a) \<Longrightarrow> card (pendingSteps a) < fuel \<Longrightarrow>
   pendingSteps b \<subseteq> pendingSteps a \<Longrightarrow>
   finite (pendingSteps b) \<and> card (pendingSteps b) < fuel"
  by (meson card_mono finite_subset le_less_trans)

lemma fire_total:
  assumes fin: "finite (pendingSteps st)" and card: "card (pendingSteps st) < fuel"
  shows "\<exists>st'. fire fuel i st = Some st'"
proof (cases "i < length (tasks st)")
  case False
  then show ?thesis by (simp add: fire_idle)
next
  case True
  let ?st0 = "st\<lparr>tasks := take i (tasks st) @ drop (Suc i) (tasks st)\<rparr>"
  have "\<exists>st'. runTask fuel (tasks st ! i) ?st0 = Some st'"
  proof (cases "tasks st ! i")
    case (AwaitExecute s p)
    show ?thesis
    proof (cases p)
      case (Rejected e)
      have "completedStep (executeStep fuel) s (Array (broadcast st s e)) False
              (?st0\<lparr>hasErrors := True\<rparr>) =
            Some (Inr (True, ?st0\<lparr>hasErrors := True,
               tasks := tasks ?st0 @ [AwaitSettled s (broadcast st s e)]\<rparr>))"
        by (subst completedStep_valid) simp_all
      with AwaitExecute Rejected show ?thesis
        by (simp add: runTask_def rejectOnThrow_def broadcast_def)
    next
      case (Fulfilled r)
      show ?thesis
      proof (cases "shapeError (bucket_size st) s r")
        case (Some e)
        then have "completedStep (executeStep fuel) s r False ?st0 = Some (Inl e)"
          by (intro completedStep_invalid) simp
        with AwaitExecute Fulfilled show ?thesis
          by (simp add: runTask_def rejectOnThrow_def)
      next
        case None
        then obtain xs where r: "r = Array xs" and len: "length xs = bucket_size st"
          by (auto simp: shapeError_None)
        have "completedStep (executeStep fuel) s (Array xs) False ?st0 =
            Some (Inr (True, ?st0\<lparr>tasks := tasks ?st0 @ [AwaitSettled s xs]\<rparr>))"
          using len by (subst completedStep_valid) simp_all
        with AwaitExecute Fulfilled r show ?thesis
          by (simp add: runTask_def rejectOnThrow_def)
      qed
    qed
  next
    case (AwaitSettled s rs)
    let ?st1 = "(snd (settleAll s rs ?st0))\<lparr>store :=
        (store (snd (settleAll s rs ?st0)))(s \<mapsto> fst (settleAll s rs ?st0))\<rparr>"
    have "\<exists>r. reallyCompletedStep (executeStep fuel) s ?st1 = Some r"
    proof (rule reallyCompletedStep_total [of fuel])
      show "finite (pendingSteps ?st1)" using fin by (simp add: settleAll_state)
      have "card (pendingSteps st - {s}) \<le> card (pendingSteps st)"
        using fin by (intro card_mono) auto
      with card show "card (pendingSteps ?st1 - {s}) \<le> fuel" by (simp add: settleAll_state)
    qed (rule executeStep_total executeStep_sound_False; assumption)+
    with AwaitSettled show ?thesis
      by (auto simp: runTask_def settledStep_def case_prod_beta)
  qed
  with True show ?thesis by (simp add: fire_def)
qed

lemma runSchedule_total:
  "finite (pendingSteps st) \<Longrightarrow> card (pendingSteps st) < fuel \<Longrightarrow>
   \<exists>st'. runSchedule fuel sch st = Some st'"
proof (induction sch arbitrary: st)
  case Nil
  then show ?case by simp
next
  case (Cons i sch)
  from fire_total [OF Cons.prems, of i] obtain st1 where f: "fire fuel i st = Some st1" by blast
  then have "pendingSteps st1 \<subseteq> pendingSteps st"
    by (intro advances_star_pending [where Q = "\<lambda>s st. True"] fire_advances)
  with Cons.prems have "finite (pendingSteps st1) \<and> card (pendingSteps st1) < fuel"
    by (intro card_pending_mono)
  with Cons.IH [of st1] f show ?case by auto
qed

lemma dispatchStartSteps_total:
  "finite (pendingSteps st) \<Longrightarrow> card (pendingSteps st) < fuel \<Longrightarrow>
   \<exists>r. dispatchStartSteps fuel ss (p, st) = Some r"
proof (induction ss arbitrary: p st)
  case Nil
  then show ?case by simp
next
  case (Cons s ss)
  have "card (pendingSteps st - {s}) \<le> card (pendingSteps st)"
    using Cons.prems(1) by (intro card_mono) auto
  with Cons.prems(2) have "card (pendingSteps st - {s}) < fuel" by simp
  from executeStep_total [OF Cons.prems(1) this] obtain r where
    r: "executeStep fuel s st = Some r" by blast
  from executeStep_sound [where Q = "\<lambda>s st. True", OF _ r] obtain q st1 where
    r': "r = Inr (q, st1)" and run: "(dispatches (\<lambda>s st. True))\<^sup>*\<^sup>* st st1" by blast
  from run have "pendingSteps st1 \<subseteq> pendingSteps st" by (rule dispatches_star_pending)
  with Cons.prems have "finite (pendingSteps st1) \<and> card (pendingSteps st1) < fuel"
    by (intro card_pending_mono)
  with Cons.IH [of st1 "p \<or> q"] obtain r2 where
    "dispatchStartSteps fuel ss (p \<or> q, st1) = Some r2" by blast
  with r r' show ?case by (simp add: rejectOnThrow_def)
qed

lemma initial_bounded:
  "finite (pendingSteps (initial b)) \<and> card (pendingSteps (initial b)) < fuelFor b"
  by (simp add: initial_def fuelFor_def card_length le_imp_less_Suc)

lemma executeBucket_total: "\<exists>out st. executeBucket sch b = Some (out, st)"
proof -
  from initial_bounded [of b] have fin: "finite (pendingSteps (initial b))"
    and card: "card (pendingSteps (initial b)) < fuelFor b" by simp_all
  from dispatchStartSteps_total [OF fin card, of "startSteps (layerPlan b)" False]
  obtain p st1 where
    start: "dispatchStartSteps (fuelFor b) (startSteps (layerPlan b)) (False, initial b) =
      Some (p, st1)" by force
  from dispatchStartSteps_sound [OF start]
  have "pendingSteps st1 \<subseteq> pendingSteps (initial b)"
    by (rule dispatches_star_pending)
  with fin card have "finite (pendingSteps st1) \<and> card (pendingSteps st1) < fuelFor b"
    by (intro card_pending_mono)
  with runSchedule_total [of st1 "fuelFor b" sch] obtain st2 where
    "runSchedule (fuelFor b) sch st1 = Some st2" by blast
  with start show ?thesis
    by (cases "settled st2"; cases "executeSamePhaseChildren st1")
       (auto simp: executeBucket_def split: sum.splits)
qed

section \<open>What a run can change\<close>


lemma dispatches_hasErrors: "dispatches Q a b \<Longrightarrow> hasErrors a \<Longrightarrow> hasErrors b"
  by (induction rule: dispatches.induct) simp_all

lemma settles_hasErrors: "settles a b \<Longrightarrow> hasErrors a \<Longrightarrow> hasErrors b"
  by (induction rule: settles.induct) (simp_all add: reject_def without_def)

lemma advances_star_hasErrors: "(advances Q)\<^sup>*\<^sup>* a b \<Longrightarrow> hasErrors a \<Longrightarrow> hasErrors b"
  by (induction rule: rtranclp_induct)
     (auto simp: advances_def dest: dispatches_hasErrors settles_hasErrors)

lemma dispatches_star_hasErrors: "(dispatches Q)\<^sup>*\<^sup>* a b \<Longrightarrow> hasErrors a \<Longrightarrow> hasErrors b"
  by (induction rule: rtranclp_induct) (auto dest: dispatches_hasErrors)

lemma settles_static:
  "settles a b \<Longrightarrow>
   layerPlan b = layerPlan a \<and> bucket_size b = bucket_size a \<and> noDepsList b = noDepsList a \<and>
   isComplete b = isComplete a"
  by (induction rule: settles.induct) (simp_all add: reject_def without_def)

lemma advances_star_static:
  "(advances Q)\<^sup>*\<^sup>* a b \<Longrightarrow>
   layerPlan b = layerPlan a \<and> bucket_size b = bucket_size a \<and> noDepsList b = noDepsList a \<and>
   isComplete b = isComplete a"
  by (induction rule: rtranclp_induct)
     (auto simp: advances_def dest: dispatches_static settles_static)

lemma settles_rejection:
  "settles a b \<Longrightarrow> rejection b = rejection a \<or> (\<exists>e. rejection b = Some e \<and> isShapeError e)"
  by (induction rule: settles.induct)
     (auto simp: reject_def without_def isShapeError_def shapeError_def
           split: option.splits returned.splits if_splits)

lemma advances_star_rejection:
  "(advances Q)\<^sup>*\<^sup>* a b \<Longrightarrow>
   rejection b = rejection a \<or> (\<exists>e. rejection b = Some e \<and> isShapeError e)"
proof (induction rule: rtranclp_induct)
  case base
  show ?case by simp
next
  case (step y z)
  from step.hyps(2) have "rejection z = rejection y \<or> (\<exists>e. rejection z = Some e \<and> isShapeError e)"
    by (auto simp: advances_def dest: dispatches_static settles_rejection)
  with step.IH show ?case by auto
qed

lemma handOff_errors: "handOff cs n = Inl e \<Longrightarrow> e = TodoError \<or> e = RootNotRoot"
  by (induction cs n rule: handOff.induct) auto

lemma executeSamePhaseChildren_errors:
  "executeSamePhaseChildren st = Inl e \<Longrightarrow> e = StepsNotComplete \<or> e = TodoError \<or> e = RootNotRoot"
  by (auto simp: executeSamePhaseChildren_def split: if_splits sum.splits dest: handOff_errors)

lemma isShapeError_executorError: "isShapeError e \<Longrightarrow> executorError e"
  by (auto simp: isShapeError_def executorError_def split: error.splits)

lemma executeBucket_escapes:
  assumes run: "executeBucket sch b = Some (out, st)" and out: "out = Thrown e \<or> out = RejectedWith e"
  shows "executorError e"
proof -
  from run obtain p st1 where
    start: "dispatchStartSteps (fuelFor b) (startSteps (layerPlan b)) (False, initial b) = Some (p, st1)"
    by (auto simp: executeBucket_def split: option.splits)
  show ?thesis
  proof (cases p)
    case False
    with run start out have "executeSamePhaseChildren st1 = Inl e"
      by (auto simp: executeBucket_def split: sum.splits)
    then show ?thesis by (auto simp: executorError_def dest!: executeSamePhaseChildren_errors)
  next
    case True
    with run start obtain st2 where
      sched: "runSchedule (fuelFor b) sch st1 = Some st2" and fin: "settled st2 = (out, st)"
      by (auto simp: executeBucket_def)
    have "(advances (\<lambda>s st. True))\<^sup>*\<^sup>* (initial b) st2"
      using dispatches_advances [OF _ dispatchStartSteps_sound [OF start], of "\<lambda>s st. True"]
        runSchedule_advances [OF sched, of "\<lambda>s st. True"]
      by (auto intro: rtranclp_trans)
    from advances_star_rejection [OF this]
    have rej: "rejection st2 = None \<or> (\<exists>e. rejection st2 = Some e \<and> isShapeError e)"
      by (simp add: initial_def)
    from fin out show ?thesis
    proof (cases "rejection st2")
      case None
      with fin out have "executeSamePhaseChildren st2 = Inl e"
        by (auto simp: settled_def split: if_splits sum.splits)
      then show ?thesis by (auto simp: executorError_def dest!: executeSamePhaseChildren_errors)
    next
      case (Some e')
      with fin out have "e' = e" by (auto simp: settled_def)
      with Some rej show ?thesis by (auto intro: isShapeError_executorError)
    qed
  qed
qed

section \<open>Faults of a step\<close>


lemma caught_syncColumn: "caught st s = Some e \<Longrightarrow> syncColumn st s = Some (broadcast st s e)"
  by (auto simp: caught_def syncColumn_def split: exec_result.splits)

lemma dispatches_False_store:
  "dispatches (\<lambda>s st. False) a b \<Longrightarrow> s \<notin> pendingSteps a \<Longrightarrow>
   store b s = store a s \<and> s \<notin> pendingSteps b"
  by (induction rule: dispatches.induct) (auto simp: suitable_def)

lemma dispatches_False_star_store:
  "(dispatches (\<lambda>s st. False))\<^sup>*\<^sup>* a b \<Longrightarrow> s \<notin> pendingSteps a \<Longrightarrow>
   store b s = store a s \<and> s \<notin> pendingSteps b"
  by (induction rule: rtranclp_induct) (auto dest: dispatches_False_store)

lemma broadcast_replicate:
  "broadcast st s e = replicate (bucket_size st) (Plain (ErrV (newCrystalError e)))"
  by (simp add: broadcast_def arrayOfLength_def newCrystalError_call_def)

lemma settleAll_plain: "\<forall>v\<in>set xs. \<exists>d. v = Plain d \<Longrightarrow> fst (settleAll s xs st) = xs"
  by (auto simp: settleAll_column intro!: map_idI)

lemma settleAll_broadcast: "fst (settleAll s (broadcast st0 s' e) st) = broadcast st0 s' e"
  by (rule settleAll_plain) (simp add: broadcast_def arrayOfLength_def)

text \<open>A call of \<open>executeStep\<close> whose \<open>execute\<close> answers synchronously.\<close>

lemma executeStep_sync:
  assumes fresh: "s \<notin> inProgressSteps st" and xs: "syncColumn st s = Some xs"
    and fin: "finite (pendingSteps st)" and card: "card (pendingSteps st) \<le> fuel"
  shows "\<exists>p st'. executeStep (Suc fuel) s st = Some (Inr (p, st')) \<and>
           (hasErrors st \<or> caught st s \<noteq> None \<longrightarrow> hasErrors st') \<and>
           rejection st' = rejection st \<and>
           (if isSyncAndSafe (stepOf (layerPlan st) s)
            then store st' s = Some xs
            else AwaitSettled s xs \<in> set (tasks st'))"
proof -
  note body = executeStepBody_sync [OF fresh xs, of "executeStep fuel"]
  show ?thesis
  proof (cases "isSyncAndSafe (stepOf (layerPlan st) s)")
    case False
    then show ?thesis by (auto simp: body)
  next
    case True
    let ?st1 = "st\<lparr>inProgressSteps := insert s (inProgressSteps st),
                  dispatched := dispatched st @ [(s, depsFor st s)],
                  hasErrors := hasErrors st \<or> caught st s \<noteq> None,
                  store := (store st)(s \<mapsto> xs)\<rparr>"
    have "\<exists>r. reallyCompletedStep (executeStep fuel) s ?st1 = Some r"
    proof (rule reallyCompletedStep_total [of fuel])
      show "finite (pendingSteps ?st1)" using fin by simp
      have "card (pendingSteps st - {s}) \<le> card (pendingSteps st)"
        using fin by (intro card_mono) auto
      with card show "card (pendingSteps ?st1 - {s}) \<le> fuel" by simp
    qed (rule executeStep_total executeStep_sound_False; assumption)+
    then obtain p st' where rc: "reallyCompletedStep (executeStep fuel) s ?st1 = Some (p, st')"
      by force
    have run: "(dispatches (\<lambda>s st. False))\<^sup>*\<^sup>*
           (?st1\<lparr>inProgressSteps := inProgressSteps ?st1 - {s},
               pendingSteps := pendingSteps ?st1 - {s}\<rparr>) st'"
      by (rule reallyCompletedStep_sound [where Q = "\<lambda>s st. False", OF _ rc])
         (rule executeStep_sound; assumption)
    from dispatches_False_star_store [OF run, of s]
    have "store st' s = Some xs" by simp
    moreover from dispatches_star_hasErrors [OF run]
    have "hasErrors st \<or> caught st s \<noteq> None \<longrightarrow> hasErrors st'" by simp
    moreover from dispatches_star_static [OF run] have "rejection st' = rejection st" by simp
    ultimately show ?thesis using True rc by (simp add: body)
  qed
qed

text \<open>A synchronous fault: the column handed on is the broadcast one.\<close>

lemma executeStep_caught:
  assumes fresh: "s \<notin> inProgressSteps st" and c: "caught st s = Some e"
    and fin: "finite (pendingSteps st)" and card: "card (pendingSteps st) \<le> fuel"
  shows "\<exists>p st'. executeStep (Suc fuel) s st = Some (Inr (p, st')) \<and> hasErrors st' \<and>
           rejection st' = rejection st \<and>
           (if isSyncAndSafe (stepOf (layerPlan st) s)
            then store st' s = Some (broadcast st s e)
            else AwaitSettled s (broadcast st s e) \<in> set (tasks st'))"
  using executeStep_sync [OF fresh caught_syncColumn [OF c] fin card] c by auto

lemma fire_rejected:
  assumes i: "i < length (tasks st)" and t: "tasks st ! i = AwaitExecute s (Rejected e)"
  shows "fire fuel i st =
     Some (st\<lparr>tasks := take i (tasks st) @ drop (Suc i) (tasks st) @
                          [AwaitSettled s (broadcast st s e)],
               hasErrors := True\<rparr>)"
proof -
  let ?st0 = "st\<lparr>tasks := take i (tasks st) @ drop (Suc i) (tasks st)\<rparr>"
  have "completedStep (executeStep fuel) s (Array (broadcast st s e)) False
          (?st0\<lparr>hasErrors := True\<rparr>) =
        Some (Inr (True, ?st0\<lparr>hasErrors := True,
           tasks := tasks ?st0 @ [AwaitSettled s (broadcast st s e)]\<rparr>))"
    by (subst completedStep_valid) simp_all
  with i t show ?thesis
    by (simp add: fire_def runTask_def rejectOnThrow_def broadcast_def)
qed

lemma fire_misshapen:
  assumes i: "i < length (tasks st)" and t: "tasks st ! i = AwaitExecute s (Fulfilled r)"
    and e: "shapeError (bucket_size st) s r = Some e"
  shows "fire fuel i st = Some (reject e (without i st))"
proof -
  let ?st0 = "st\<lparr>tasks := take i (tasks st) @ drop (Suc i) (tasks st)\<rparr>"
  from e have "completedStep (executeStep fuel) s r False ?st0 = Some (Inl e)"
    by (intro completedStep_invalid) simp
  with i t show ?thesis
    by (simp add: fire_def runTask_def rejectOnThrow_def without_def)
qed

lemma fire_published:
  assumes i: "i < length (tasks st)" and t: "tasks st ! i = AwaitSettled s xs"
    and fin: "finite (pendingSteps st)" and card: "card (pendingSteps st) < fuel"
  shows "\<exists>st'. fire fuel i st = Some st' \<and> store st' s = Some (fst (settleAll s xs st)) \<and>
           rejection st' = rejection st \<and> (hasErrors st \<longrightarrow> hasErrors st')"
proof -
  from fire_total [OF fin card, of i] obtain st' where f: "fire fuel i st = Some st'" by blast
  let ?st0 = "st\<lparr>tasks := take i (tasks st) @ drop (Suc i) (tasks st)\<rparr>"
  let ?st1 = "st\<lparr>tasks := take i (tasks st) @ drop (Suc i) (tasks st),
               hasErrors := hasErrors st \<or> (\<exists>t\<in>set xs. isRejects t),
               store := (store st)(s \<mapsto> fst (settleAll s xs st))\<rparr>"
  have "settledStep (executeStep fuel) s xs ?st0 = reallyCompletedStep (executeStep fuel) s ?st1"
    using settleAll_state [of s xs ?st0] settleAll_fst_indep [of s xs ?st0 st]
    by (simp add: settledStep_def case_prod_beta)
  with f i t obtain p where
    rc: "reallyCompletedStep (executeStep fuel) s ?st1 = Some (p, st')"
    by (auto simp: fire_def runTask_def)
  have run: "(dispatches (\<lambda>s st. False))\<^sup>*\<^sup>*
         (?st1\<lparr>inProgressSteps := inProgressSteps ?st1 - {s},
             pendingSteps := pendingSteps ?st1 - {s}\<rparr>) st'"
    by (rule reallyCompletedStep_sound [where Q = "\<lambda>s st. False", OF _ rc])
       (rule executeStep_sound; assumption)
  from dispatches_False_star_store [OF run, of s]
  have "store st' s = Some (fst (settleAll s xs st))" by simp
  moreover from dispatches_star_hasErrors [OF run] have "hasErrors st \<longrightarrow> hasErrors st'" by simp
  moreover from dispatches_star_static [OF run] have "rejection st' = rejection st" by simp
  ultimately show ?thesis using f by blast
qed

section \<open>The continuations run out\<close>

lemma sum_list_remove_nth:
  "i < length ts \<Longrightarrow>
   sum_list (map f (take i ts @ drop (Suc i) ts)) + f (ts ! i) = sum_list (map (f :: 'a \<Rightarrow> nat) ts)"
proof -
  assume "i < length ts"
  then have "ts = take i ts @ ts ! i # drop (Suc i) ts" by (rule id_take_nth_drop)
  then have "sum_list (map f ts) = sum_list (map f (take i ts @ ts ! i # drop (Suc i) ts))"
    by simp
  then show ?thesis by simp
qed

lemma card_dispatch:
  assumes "finite P" "s \<in> P" "s \<notin> I"
  shows "Suc (card (P - insert s I)) = card (P - I)"
proof -
  have "P - insert s I = (P - I) - {s}" by auto
  moreover from assms have "s \<in> P - I" "finite (P - I)" by auto
  ultimately show ?thesis by (metis card_Suc_Diff1)
qed

lemma card_complete:
  assumes "finite P" "s \<in> P" "s \<notin> I"
  shows "Suc (card ((P - {s}) - (I - {s}))) = card (P - I)"
proof -
  have "(P - {s}) - (I - {s}) = (P - I) - {s}" by auto
  moreover from assms have "s \<in> P - I" "finite (P - I)" by auto
  ultimately show ?thesis by (metis card_Suc_Diff1)
qed

lemma dispatches_weight:
  assumes "dispatches (\<lambda>s st. False) a b" and fin: "finite (pendingSteps a)"
  shows "weight b < weight a"
  using assms(1)
proof (cases rule: dispatches.cases)
  case (async s p)
  then have "s \<in> pendingSteps a" by (simp add: suitable_def)
  from card_dispatch [OF fin this async(2)] async(1) show ?thesis
    by (simp add: weight_def)
next
  case (slow s xs)
  then have "s \<in> pendingSteps a" by (simp add: suitable_def)
  from card_dispatch [OF fin this slow(2)] slow(1) show ?thesis
    by (simp add: weight_def)
next
  case (fast s xs)
  then have "s \<in> pendingSteps a" by (simp add: suitable_def)
  from card_complete [OF fin this fast(2)] fast(1) show ?thesis
    by (simp add: weight_def)
qed

lemma dispatches_star_weight:
  "(dispatches (\<lambda>s st. False))\<^sup>*\<^sup>* a b \<Longrightarrow> finite (pendingSteps a) \<Longrightarrow> weight b \<le> weight a"
proof (induction rule: rtranclp_induct)
  case base
  show ?case by simp
next
  case (step y z)
  from step.hyps(1) have "pendingSteps y \<subseteq> pendingSteps a" by (rule dispatches_star_pending)
  with step.prems have "finite (pendingSteps y)" by (rule rev_finite_subset)
  with dispatches_weight [OF step.hyps(2)] step.IH step.prems show ?case by simp
qed

lemma settles_weight:
  assumes "settles a b" and fin: "finite (pendingSteps a)"
  shows "weight b < weight a"
  using assms(1)
proof (cases rule: settles.cases)
  case (fulfilled i s xs)
  with sum_list_remove_nth [of i "tasks a" taskWeight] show ?thesis
    by (simp add: weight_def)
next
  case (misshapen i s r e)
  with sum_list_remove_nth [of i "tasks a" taskWeight] show ?thesis
    by (simp add: weight_def reject_def without_def)
next
  case (rejected i s e)
  with sum_list_remove_nth [of i "tasks a" taskWeight] show ?thesis
    by (simp add: weight_def)
next
  case (published i s rs)
  have "(pendingSteps a - {s}) - (inProgressSteps a - {s}) \<subseteq> pendingSteps a - inProgressSteps a"
    by auto
  with fin have "card ((pendingSteps a - {s}) - (inProgressSteps a - {s}))
      \<le> card (pendingSteps a - inProgressSteps a)"
    by (intro card_mono) auto
  with published sum_list_remove_nth [of i "tasks a" taskWeight] show ?thesis
    by (simp add: weight_def)
qed

lemma fire_weight:
  assumes "i < length (tasks st)" "fire fuel i st = Some st'" "finite (pendingSteps st)"
  shows "weight st' < weight st"
proof -
  from fire_sound [OF assms(1,2)] obtain st1 where
    one: "settles st st1" and run: "(dispatches (\<lambda>s st. False))\<^sup>*\<^sup>* st1 st'" by blast
  from one have "pendingSteps st1 \<subseteq> pendingSteps st" by (rule settles_pending)
  with assms(3) have "finite (pendingSteps st1)" by (rule rev_finite_subset)
  with dispatches_star_weight [OF run] settles_weight [OF one assms(3)] show ?thesis by simp
qed

lemma runSchedule_idle: "tasks st = [] \<Longrightarrow> runSchedule fuel (replicate n 0) st = Some st"
  by (induction n) (simp_all add: fire_def)

lemma taskWeight_pos: "0 < taskWeight t"
  by (cases t) simp_all

lemma weight_zero: "weight st = 0 \<Longrightarrow> tasks st = []"
proof (cases "tasks st")
  case Nil
  then show ?thesis by simp
next
  case (Cons t ts)
  assume "weight st = 0"
  with Cons taskWeight_pos [of t] show ?thesis by (simp add: weight_def)
qed

lemma runSchedule_drains:
  "finite (pendingSteps st) \<Longrightarrow> weight st \<le> n \<Longrightarrow>
   runSchedule fuel (replicate n 0) st = Some st' \<Longrightarrow> tasks st' = []"
proof (induction n arbitrary: st)
  case 0
  then show ?case by (simp add: weight_zero)
next
  case (Suc n)
  show ?case
  proof (cases "tasks st = []")
    case True
    with Suc.prems(3) runSchedule_idle [OF True, of fuel "Suc n"] show ?thesis by simp
  next
    case False
    from Suc.prems(3) obtain st1 where
      f: "fire fuel 0 st = Some st1" and rest: "runSchedule fuel (replicate n 0) st1 = Some st'"
      by (auto split: option.splits)
    from False have i: "0 < length (tasks st)" by simp
    from fire_weight [OF i f Suc.prems(1)] Suc.prems(2) have "weight st1 \<le> n" by simp
    moreover from fire_advances [OF f, of "\<lambda>s st. True"] have "pendingSteps st1 \<subseteq> pendingSteps st"
      by (rule advances_star_pending)
    with Suc.prems(1) have "finite (pendingSteps st1)" by (rule rev_finite_subset)
    ultimately show ?thesis using rest Suc.IH by blast
  qed
qed

lemma settled_when_drained: "tasks st = [] \<Longrightarrow> fst (settled st) \<noteq> Unsettled"
  by (auto simp: settled_def split: option.splits sum.splits)

lemma executeBucket_settles:
  "\<exists>n. \<forall>m\<ge>n. \<exists>out st. executeBucket (replicate m 0) b = Some (out, st) \<and> out \<noteq> Unsettled"
proof -
  from initial_bounded [of b] have fin: "finite (pendingSteps (initial b))"
    and card: "card (pendingSteps (initial b)) < fuelFor b" by simp_all
  from dispatchStartSteps_total [OF fin card, of "startSteps (layerPlan b)" False]
  obtain p st1 where
    start: "dispatchStartSteps (fuelFor b) (startSteps (layerPlan b)) (False, initial b) =
      Some (p, st1)" by force
  from dispatchStartSteps_sound [OF start]
  have "pendingSteps st1 \<subseteq> pendingSteps (initial b)" by (rule dispatches_star_pending)
  with fin have fin1: "finite (pendingSteps st1)" by (rule rev_finite_subset)
  have "\<exists>out st. executeBucket (replicate m 0) b = Some (out, st) \<and> out \<noteq> Unsettled"
    if m: "weight st1 \<le> m" for m
  proof -
    from executeBucket_total [of "replicate m 0" b] obtain out st where
      run: "executeBucket (replicate m 0) b = Some (out, st)" by blast
    have "out \<noteq> Unsettled"
    proof (cases p)
      case False
      with run start show ?thesis
        by (auto simp: executeBucket_def split: sum.splits)
    next
      case True
      with run start obtain st2 where
        sched: "runSchedule (fuelFor b) (replicate m 0) st1 = Some st2"
        and fin2: "settled st2 = (out, st)"
        by (auto simp: executeBucket_def)
      from runSchedule_drains [OF fin1 m sched] have "tasks st2 = []" .
      from settled_when_drained [OF this] fin2 show ?thesis by simp
    qed
    with run show ?thesis by blast
  qed
  then show ?thesis by blast
qed

section \<open>Where the published columns come from\<close>

lemma syncColumn_uncaught:
  "syncColumn a s = Some xs \<Longrightarrow> caught a s = None \<Longrightarrow> invoke a s = Returns (Array xs)"
  by (auto simp: syncColumn_def caught_def split: exec_result.splits option.splits returned.splits)

lemma syncColumn_source:
  assumes "syncColumn a s = Some xs"
  shows "length xs = bucket_size a \<and>
         ((\<exists>e. caught a s = Some e \<and> xs = broadcast a s e) \<or>
          (caught a s = None \<and>
           execute (stepOf (layerPlan a) s) (depsFor a s) = Returns (Array xs)))"
proof (cases "caught a s")
  case None
  from syncColumn_uncaught [OF assms None] have "invoke a s = Returns (Array xs)" .
  then have "execute (stepOf (layerPlan a) s) (depsFor a s) = Returns (Array xs)"
    by (rule invoke_Returns)
  with None syncColumn_length [OF assms] show ?thesis by simp
next
  case (Some e)
  from caught_syncColumn [OF Some] assms have "xs = broadcast a s e" by simp
  with Some syncColumn_length [OF assms] show ?thesis by simp
qed

lemma depsFor_columns:
  "Some d \<in> set (depsFor a s) \<Longrightarrow> d = noDepsList a \<or> (\<exists>x. store a x = Some d)"
  by (auto simp: depsFor_def split: if_splits)

lemma grows_broadcast: "grows a b \<Longrightarrow> broadcast b s e = broadcast a s e"
  by (simp add: grows_def broadcast_def)

lemma grows_delivered: "grows a b \<Longrightarrow> delivered a s R \<Longrightarrow> delivered b s R"
  unfolding grows_def delivered_def by auto

lemma grows_returnedBy: "grows a b \<Longrightarrow> returnedBy a s R \<Longrightarrow> returnedBy b s R"
  unfolding grows_def returnedBy_def by auto

lemma grows_routed:
  assumes g: "grows a b" and r: "routed a s xs"
  shows "routed b s xs"
proof -
  from g have same: "bucket_size b = bucket_size a" "layerPlan b = layerPlan a"
    and flag: "hasErrors a \<longrightarrow> hasErrors b"
    by (simp_all add: grows_def)
  from r have len: "length xs = bucket_size a" by (simp add: routed_def)
  from r consider
      (failure) e where "hasErrors a" "xs = broadcast a s e"
    | (settled) R where "delivered a s R" "xs = map settledEntry R"
        "(\<exists>t\<in>set R. isRejects t) \<longrightarrow> hasErrors a"
    | (stored) "isSyncAndSafe (stepOf (layerPlan a) s)" "returnedBy a s xs"
    unfolding routed_def by blast
  then show ?thesis
  proof cases
    case failure
    from failure(2) grows_broadcast [OF g, of s e] have "xs = broadcast b s e" by simp
    with failure(1) flag have "hasErrors b \<and> (\<exists>e. xs = broadcast b s e)" by blast
    with len same show ?thesis unfolding routed_def by simp
  next
    case settled
    from grows_delivered [OF g settled(1)] settled(2,3) flag
    have "\<exists>R. delivered b s R \<and> xs = map settledEntry R \<and>
            ((\<exists>t\<in>set R. isRejects t) \<longrightarrow> hasErrors b)"
      by blast
    with len same show ?thesis unfolding routed_def by simp
  next
    case stored
    from grows_returnedBy [OF g stored(2)] stored(1) same
    have "isSyncAndSafe (stepOf (layerPlan b) s) \<and> returnedBy b s xs" by simp
    with len same show ?thesis unfolding routed_def by simp
  qed
qed

lemma grows_taskRouted:
  assumes g: "grows a b" and r: "taskRouted a t"
  shows "taskRouted b t"
proof (cases t)
  case (AwaitExecute s p)
  with r g show ?thesis unfolding grows_def by auto
next
  case (AwaitSettled s xs)
  from g have same: "bucket_size b = bucket_size a" and flag: "hasErrors a \<longrightarrow> hasErrors b"
    by (simp_all add: grows_def)
  from r AwaitSettled have len: "length xs = bucket_size a"
    and src: "(hasErrors a \<and> (\<exists>e. xs = broadcast a s e)) \<or> delivered a s xs"
    by simp_all
  from src have "(hasErrors b \<and> (\<exists>e. xs = broadcast b s e)) \<or> delivered b s xs"
  proof
    assume "hasErrors a \<and> (\<exists>e. xs = broadcast a s e)"
    then obtain e where e: "hasErrors a" "xs = broadcast a s e" by blast
    from e(2) grows_broadcast [OF g, of s e] have "xs = broadcast b s e" by simp
    with e(1) flag show ?thesis by blast
  next
    assume "delivered a s xs"
    with g have "delivered b s xs" by (rule grows_delivered)
    then show ?thesis ..
  qed
  with len same AwaitSettled show ?thesis by simp
qed

lemma grows_supplied: "grows a b \<Longrightarrow> supplied S a d \<Longrightarrow> supplied S b d"
  by (simp add: grows_def supplied_def)

lemma dispatches_grows: "dispatches Q a b \<Longrightarrow> grows a b"
  by (induction rule: dispatches.induct) (auto simp: grows_def)

lemma settles_grows: "settles a b \<Longrightarrow> grows a b"
  by (induction rule: settles.induct) (auto simp: grows_def reject_def without_def)

text \<open>
  A transition keeps every column accounted for when what it adds to the store, to the
  waiting continuations and to the log is.
\<close>

lemma accounted_frame:
  assumes acc: "accounted S a" and g: "grows a b"
    and st: "\<And>s xs. store b s = Some xs \<Longrightarrow> store a s = Some xs \<or> routed b s xs"
    and ts: "\<And>t. t \<in> set (tasks b) \<Longrightarrow> t \<in> set (tasks a) \<or> taskRouted b t"
    and ds: "\<And>s deps. (s, deps) \<in> set (dispatched b) \<Longrightarrow>
               (s, deps) \<in> set (dispatched a) \<or> deps = depsFor a s"
  shows "accounted S b"
proof -
  from acc have store_a: "\<And>s xs. store a s = Some xs \<Longrightarrow> S s = Some xs \<or> routed a s xs"
    and tasks_a: "\<And>t. t \<in> set (tasks a) \<Longrightarrow> taskRouted a t"
    and deps_a: "\<And>s deps d. (s, deps) \<in> set (dispatched a) \<Longrightarrow> Some d \<in> set deps \<Longrightarrow>
                   supplied S a d \<or> (\<exists>s'. routed a s' d)"
    unfolding accounted_def by blast+
  have one: "S s = Some xs \<or> routed b s xs" if "store b s = Some xs" for s xs
    using st [OF that] store_a [of s xs] grows_routed [OF g, of s xs] by blast
  have two: "taskRouted b t" if "t \<in> set (tasks b)" for t
    using ts [OF that] tasks_a [of t] grows_taskRouted [OF g, of t] by blast
  have three: "supplied S b d \<or> (\<exists>s'. routed b s' d)"
    if in_log: "(s, deps) \<in> set (dispatched b)" and d: "Some d \<in> set deps" for s deps d
  proof -
    from ds [OF in_log] show ?thesis
    proof
      assume "(s, deps) \<in> set (dispatched a)"
      from deps_a [OF this d] grows_supplied [OF g, of S d] grows_routed [OF g]
      show ?thesis by blast
    next
      assume "deps = depsFor a s"
      with d depsFor_columns [of d a s] have "d = noDepsList a \<or> (\<exists>x. store a x = Some d)"
        by simp
      then show ?thesis
      proof
        assume "d = noDepsList a"
        with g have "supplied S b d" by (simp add: supplied_def grows_def)
        then show ?thesis ..
      next
        assume "\<exists>x. store a x = Some d"
        then obtain x where "store a x = Some d" ..
        from store_a [OF this] show ?thesis
        proof
          assume "S x = Some d"
          then have "supplied S b d" by (auto simp: supplied_def)
          then show ?thesis ..
        next
          assume "routed a x d"
          with g have "routed b x d" by (rule grows_routed)
          then show ?thesis by blast
        qed
      qed
    qed
  qed
  from one two three show ?thesis unfolding accounted_def by blast
qed

lemma dispatches_accounted:
  assumes step: "dispatches Q a b" and acc: "accounted S a"
  shows "accounted S b"
proof -
  note g = dispatches_grows [OF step]
  from step show ?thesis
  proof (cases rule: dispatches.cases)
    case (async s p)
    from async(4) have ex: "execute (stepOf (layerPlan a) s) (depsFor a s) = Promised p"
      by (rule invoke_Promised)
    have new: "taskRouted b (AwaitExecute s p)"
      unfolding taskRouted.simps
      by (rule exI [of _ "depsFor a s"]) (simp add: async(1) ex)
    show ?thesis
    proof (rule accounted_frame [OF acc g])
      fix y ys assume "store b y = Some ys"
      then show "store a y = Some ys \<or> routed b y ys" by (simp add: async(1))
    next
      fix t assume "t \<in> set (tasks b)"
      then have "t \<in> set (tasks a) \<or> t = AwaitExecute s p" by (auto simp: async(1))
      with new show "t \<in> set (tasks a) \<or> taskRouted b t" by blast
    next
      fix y deps assume "(y, deps) \<in> set (dispatched b)"
      then show "(y, deps) \<in> set (dispatched a) \<or> deps = depsFor a y"
        by (auto simp: async(1))
    qed
  next
    case (slow s xs)
    from syncColumn_source [OF slow(4)] have len: "length xs = bucket_size a"
      and src: "(\<exists>e. caught a s = Some e \<and> xs = broadcast a s e) \<or>
                (caught a s = None \<and>
                 execute (stepOf (layerPlan a) s) (depsFor a s) = Returns (Array xs))"
      by simp_all
    from src have "(hasErrors b \<and> (\<exists>e. xs = broadcast b s e)) \<or> delivered b s xs"
    proof
      assume "\<exists>e. caught a s = Some e \<and> xs = broadcast a s e"
      then obtain e where "caught a s = Some e" "xs = broadcast a s e" by blast
      then have "hasErrors b \<and> xs = broadcast b s e"
        by (simp add: slow(1) broadcast_def)
      then show ?thesis by blast
    next
      assume "caught a s = None \<and>
        execute (stepOf (layerPlan a) s) (depsFor a s) = Returns (Array xs)"
      then have "delivered b s xs"
        unfolding delivered_def
        by (intro exI [of _ "depsFor a s"]) (simp add: slow(1))
      then show ?thesis ..
    qed
    with len have new: "taskRouted b (AwaitSettled s xs)" by (simp add: slow(1))
    show ?thesis
    proof (rule accounted_frame [OF acc g])
      fix y ys assume "store b y = Some ys"
      then show "store a y = Some ys \<or> routed b y ys" by (simp add: slow(1))
    next
      fix t assume "t \<in> set (tasks b)"
      then have "t \<in> set (tasks a) \<or> t = AwaitSettled s xs" by (auto simp: slow(1))
      with new show "t \<in> set (tasks a) \<or> taskRouted b t" by blast
    next
      fix y deps assume "(y, deps) \<in> set (dispatched b)"
      then show "(y, deps) \<in> set (dispatched a) \<or> deps = depsFor a y"
        by (auto simp: slow(1))
    qed
  next
    case (fast s xs)
    from syncColumn_source [OF fast(4)] have len: "length xs = bucket_size a"
      and src: "(\<exists>e. caught a s = Some e \<and> xs = broadcast a s e) \<or>
                (caught a s = None \<and>
                 execute (stepOf (layerPlan a) s) (depsFor a s) = Returns (Array xs))"
      by simp_all
    from src have "(hasErrors b \<and> (\<exists>e. xs = broadcast b s e)) \<or>
        (isSyncAndSafe (stepOf (layerPlan b) s) \<and> returnedBy b s xs)"
    proof
      assume "\<exists>e. caught a s = Some e \<and> xs = broadcast a s e"
      then obtain e where "caught a s = Some e" "xs = broadcast a s e" by blast
      then have "hasErrors b \<and> xs = broadcast b s e"
        by (simp add: fast(1) broadcast_def)
      then show ?thesis by blast
    next
      assume "caught a s = None \<and>
        execute (stepOf (layerPlan a) s) (depsFor a s) = Returns (Array xs)"
      then have "returnedBy b s xs"
        unfolding returnedBy_def
        by (intro exI [of _ "depsFor a s"]) (simp add: fast(1))
      with fast(5) show ?thesis by (simp add: fast(1))
    qed
    moreover from len have "length xs = bucket_size b" by (simp add: fast(1))
    ultimately have new: "routed b s xs" unfolding routed_def by blast
    show ?thesis
    proof (rule accounted_frame [OF acc g])
      fix y ys assume "store b y = Some ys"
      with new show "store a y = Some ys \<or> routed b y ys"
        by (cases "y = s") (simp_all add: fast(1))
    next
      fix t assume "t \<in> set (tasks b)"
      then show "t \<in> set (tasks a) \<or> taskRouted b t" by (simp add: fast(1))
    next
      fix y deps assume "(y, deps) \<in> set (dispatched b)"
      then show "(y, deps) \<in> set (dispatched a) \<or> deps = depsFor a y"
        by (auto simp: fast(1))
    qed
  qed
qed

lemma in_set_remove_nth: "t \<in> set (take i xs @ drop (Suc i) xs) \<Longrightarrow> t \<in> set xs"
  by (auto dest: in_set_takeD in_set_dropD)

lemma settleAll_settledEntry: "fst (settleAll s rs st) = map settledEntry rs"
  unfolding settleAll_column settledEntry_def newCrystalError_call_def ..

lemma settledEntry_broadcast: "map settledEntry (broadcast a s e) = broadcast a s e"
  by (simp add: broadcast_def arrayOfLength_def settledEntry_def)

lemma settles_accounted:
  assumes step: "settles a b" and acc: "accounted S a"
  shows "accounted S b"
proof -
  note g = settles_grows [OF step]
  from acc have tasks_a: "\<And>t. t \<in> set (tasks a) \<Longrightarrow> taskRouted a t"
    unfolding accounted_def by blast
  from step show ?thesis
  proof (cases rule: settles.cases)
    case (fulfilled i s xs)
    from fulfilled(2,3) have "AwaitExecute s (Fulfilled (Array xs)) \<in> set (tasks a)"
      by (metis nth_mem)
    from tasks_a [OF this] have "delivered a s xs" by (auto simp: delivered_def)
    with g have "delivered b s xs" by (rule grows_delivered)
    with fulfilled(4) have new: "taskRouted b (AwaitSettled s xs)" by (simp add: fulfilled(1))
    show ?thesis
    proof (rule accounted_frame [OF acc g])
      fix y ys assume "store b y = Some ys"
      then show "store a y = Some ys \<or> routed b y ys" by (simp add: fulfilled(1))
    next
      fix t assume "t \<in> set (tasks b)"
      then have "t \<in> set (take i (tasks a) @ drop (Suc i) (tasks a)) \<or> t = AwaitSettled s xs"
        by (auto simp: fulfilled(1))
      with new show "t \<in> set (tasks a) \<or> taskRouted b t"
        by (blast dest: in_set_remove_nth)
    next
      fix y deps assume "(y, deps) \<in> set (dispatched b)"
      then show "(y, deps) \<in> set (dispatched a) \<or> deps = depsFor a y"
        by (simp add: fulfilled(1))
    qed
  next
    case (misshapen i s r e)
    show ?thesis
    proof (rule accounted_frame [OF acc g])
      fix y ys assume "store b y = Some ys"
      then show "store a y = Some ys \<or> routed b y ys"
        by (simp add: misshapen(1) reject_def without_def)
    next
      fix t assume "t \<in> set (tasks b)"
      then have "t \<in> set (take i (tasks a) @ drop (Suc i) (tasks a))"
        by (simp add: misshapen(1) reject_def without_def)
      then show "t \<in> set (tasks a) \<or> taskRouted b t" by (blast dest: in_set_remove_nth)
    next
      fix y deps assume "(y, deps) \<in> set (dispatched b)"
      then show "(y, deps) \<in> set (dispatched a) \<or> deps = depsFor a y"
        by (simp add: misshapen(1) reject_def without_def)
    qed
  next
    case (rejected i s e)
    have "hasErrors b \<and> broadcast a s e = broadcast b s e"
      by (simp add: rejected(1) broadcast_def)
    then have new: "taskRouted b (AwaitSettled s (broadcast a s e))"
      using grows_def g by auto
    show ?thesis
    proof (rule accounted_frame [OF acc g])
      fix y ys assume "store b y = Some ys"
      then show "store a y = Some ys \<or> routed b y ys" by (simp add: rejected(1))
    next
      fix t assume "t \<in> set (tasks b)"
      then have "t \<in> set (take i (tasks a) @ drop (Suc i) (tasks a)) \<or>
          t = AwaitSettled s (broadcast a s e)"
        by (auto simp: rejected(1))
      with new show "t \<in> set (tasks a) \<or> taskRouted b t"
        by (blast dest: in_set_remove_nth)
    next
      fix y deps assume "(y, deps) \<in> set (dispatched b)"
      then show "(y, deps) \<in> set (dispatched a) \<or> deps = depsFor a y"
        by (simp add: rejected(1))
    qed
  next
    case (published i s rs)
    from published(2,3) have "AwaitSettled s rs \<in> set (tasks a)" by (metis nth_mem)
    from tasks_a [OF this] have len: "length rs = bucket_size a"
      and src: "(hasErrors a \<and> (\<exists>e. rs = broadcast a s e)) \<or> delivered a s rs"
      by simp_all
    from g have same: "bucket_size b = bucket_size a"
      and flag: "hasErrors a \<longrightarrow> hasErrors b" by (simp_all add: grows_def)
    have flag': "(\<exists>t\<in>set rs. isRejects t) \<longrightarrow> hasErrors b" by (simp add: published(1))
    from src have "(hasErrors b \<and> (\<exists>e. map settledEntry rs = broadcast b s e)) \<or>
        (\<exists>R. delivered b s R \<and> map settledEntry rs = map settledEntry R \<and>
           ((\<exists>t\<in>set R. isRejects t) \<longrightarrow> hasErrors b))"
    proof
      assume "hasErrors a \<and> (\<exists>e. rs = broadcast a s e)"
      then obtain e where "hasErrors a" "rs = broadcast a s e" by blast
      with flag grows_broadcast [OF g, of s e]
      have "hasErrors b \<and> map settledEntry rs = broadcast b s e"
        by (simp add: settledEntry_broadcast)
      then show ?thesis by blast
    next
      assume "delivered a s rs"
      with g have "delivered b s rs" by (rule grows_delivered)
      with flag' show ?thesis by blast
    qed
    moreover from len same have "length (map settledEntry rs) = bucket_size b" by simp
    ultimately have new: "routed b s (map settledEntry rs)" unfolding routed_def by blast
    show ?thesis
    proof (rule accounted_frame [OF acc g])
      fix y ys assume "store b y = Some ys"
      with new show "store a y = Some ys \<or> routed b y ys"
        by (cases "y = s") (simp_all add: published(1) settleAll_settledEntry)
    next
      fix t assume "t \<in> set (tasks b)"
      then have "t \<in> set (take i (tasks a) @ drop (Suc i) (tasks a))"
        by (simp add: published(1))
      then show "t \<in> set (tasks a) \<or> taskRouted b t" by (blast dest: in_set_remove_nth)
    next
      fix y deps assume "(y, deps) \<in> set (dispatched b)"
      then show "(y, deps) \<in> set (dispatched a) \<or> deps = depsFor a y"
        by (simp add: published(1))
    qed
  qed
qed

lemma advances_star_accounted:
  "(advances Q)\<^sup>*\<^sup>* a b \<Longrightarrow> accounted S a \<Longrightarrow> accounted S b"
  by (induction rule: rtranclp_induct)
     (auto simp: advances_def dest: dispatches_accounted settles_accounted)

lemma initial_accounted: "accounted (store b) (initial b)"
  by (simp add: accounted_def initial_def)

lemma executeBucket_accounted:
  "executeBucket sch b = Some (out, st) \<Longrightarrow> accounted (store b) st"
  using executeBucket_advances [of sch b out st] initial_accounted [of b]
  by (blast intro: advances_star_accounted)

section \<open>Faults and what escapes\<close>

text \<open>
  Claim C2, as stated, fails: a bucket whose layer plan has a child layer plan of reason
  \<open>listItem\<close> makes \<open>executeBucket\<close> throw.
\<close>

theorem executeBucket_throws_on_list_child:
  "map_option fst (executeBucket [] listBucket) = Some (Thrown TodoError)"
  by code_simp

text \<open>
  Claim C2, amended. \<open>executeBucket\<close> always gives an outcome: an immediate completion,
  a throw, or a future, and the future has settled once the continuations registered on
  the way have run (here in the order they were registered). What it throws or rejects
  with is one of the executor's own errors only: the shape error of a column delivered
  through a future, steps still pending at hand-off, or a child layer plan of reason
  \<open>listItem\<close>, \<open>mutationField\<close>, \<open>polymorphic\<close> or \<open>root\<close>; never a fault of a
  step, and never the ReferenceError or TypeError of the error-aware invoker. Every column
  in the store at the end was there from the start or has \<open>bucket.size\<close> rows and is
  one of: one ErrorValue on every row, with \<open>hasErrors\<close> true (a step that raised,
  whose future rejected, or around which an exception was caught); the column the step
  delivered with every future replaced by its value and every rejected row by the
  ErrorValue of its reason, with \<open>hasErrors\<close> true if a row rejected; or the column a
  sync-and-safe step returned, stored as it is, a rejected row of it still a rejected
  future.
\<close>

theorem only_executor_errors_escape:
  "(\<exists>out st. executeBucket sch b = Some (out, st) \<and>
      (\<forall>e. out = Thrown e \<or> out = RejectedWith e \<longrightarrow> executorError e) \<and>
      (\<forall>s xs. store st s = Some xs \<longrightarrow> store b s = Some xs \<or> routed st s xs)) \<and>
   (\<exists>n. \<forall>m\<ge>n. \<exists>out st. executeBucket (replicate m 0) b = Some (out, st) \<and> out \<noteq> Unsettled)"
proof
  from executeBucket_total [of sch b] obtain out st where
    run: "executeBucket sch b = Some (out, st)" by blast
  have "\<forall>e. out = Thrown e \<or> out = RejectedWith e \<longrightarrow> executorError e"
    using executeBucket_escapes [OF run] by blast
  moreover have "\<forall>s xs. store st s = Some xs \<longrightarrow> store b s = Some xs \<or> routed st s xs"
    using executeBucket_accounted [OF run] unfolding accounted_def by blast
  ultimately show "\<exists>out st. executeBucket sch b = Some (out, st) \<and>
      (\<forall>e. out = Thrown e \<or> out = RejectedWith e \<longrightarrow> executorError e) \<and>
      (\<forall>s xs. store st s = Some xs \<longrightarrow> store b s = Some xs \<or> routed st s xs)"
    using run by blast
  show "\<exists>n. \<forall>m\<ge>n. \<exists>out st. executeBucket (replicate m 0) b = Some (out, st) \<and> out \<noteq> Unsettled"
    by (rule executeBucket_settles)
qed

theorem only_executor_errors_escape_witness:
  "executorError TodoError \<and>
   map_option fst (executeBucket [] listBucket) = Some (Thrown TodoError) \<and>
   (\<exists>out st. executeBucket [0] rowErrorBucket = Some (out, st) \<and>
      store st 0 = Some [Plain (Num 1), Plain (ErrV boom), Plain (Num 3)] \<and>
      routed st 0 [Plain (Num 1), Plain (ErrV boom), Plain (Num 3)]) \<and>
   (\<exists>out st. executeBucket [] unsafeBucket = Some (out, st) \<and>
      store st 0 = Some [Plain (Num 1), Rejects (StepError ''boom''), Plain (Num 3)] \<and>
      routed st 0 [Plain (Num 1), Rejects (StepError ''boom''), Plain (Num 3)])"
proof -
  have run: "map_option fst (executeBucket [] listBucket) = Some (Thrown TodoError)"
    by code_simp
  from only_executor_errors_escape [of "[]" listBucket] obtain out st where
    "executeBucket [] listBucket = Some (out, st)"
    "\<forall>e. out = Thrown e \<or> out = RejectedWith e \<longrightarrow> executorError e" by blast
  with run have one: "executorError TodoError" by auto
  have row: "map_option (\<lambda>(out, st). store st 0) (executeBucket [0] rowErrorBucket) =
      Some (Some [Plain (Num 1), Plain (ErrV boom), Plain (Num 3)])"
    by code_simp
  have fresh: "store rowErrorBucket 0 = None" "store unsafeBucket 0 = None"
    by (simp_all add: rowErrorBucket_def unsafeBucket_def bucketOf_def)
  from only_executor_errors_escape [of "[0]" rowErrorBucket] obtain out1 st1 where
    r1: "executeBucket [0] rowErrorBucket = Some (out1, st1)"
    and s1: "\<forall>s xs. store st1 s = Some xs \<longrightarrow> store rowErrorBucket s = Some xs \<or> routed st1 s xs"
    by blast
  from row r1 have c1: "store st1 0 = Some [Plain (Num 1), Plain (ErrV boom), Plain (Num 3)]"
    by simp
  with s1 fresh(1) have "routed st1 0 [Plain (Num 1), Plain (ErrV boom), Plain (Num 3)]"
    by fastforce
  with r1 c1 have two: "\<exists>out st. executeBucket [0] rowErrorBucket = Some (out, st) \<and>
      store st 0 = Some [Plain (Num 1), Plain (ErrV boom), Plain (Num 3)] \<and>
      routed st 0 [Plain (Num 1), Plain (ErrV boom), Plain (Num 3)]"
    by blast
  have unsafe: "map_option (\<lambda>(out, st). store st 0) (executeBucket [] unsafeBucket) =
      Some (Some [Plain (Num 1), Rejects (StepError ''boom''), Plain (Num 3)])"
    by code_simp
  from only_executor_errors_escape [of "[]" unsafeBucket] obtain out2 st2 where
    r2: "executeBucket [] unsafeBucket = Some (out2, st2)"
    and s2: "\<forall>s xs. store st2 s = Some xs \<longrightarrow> store unsafeBucket s = Some xs \<or> routed st2 s xs"
    by blast
  from unsafe r2
  have c2: "store st2 0 = Some [Plain (Num 1), Rejects (StepError ''boom''), Plain (Num 3)]"
    by simp
  with s2 fresh(2)
  have "routed st2 0 [Plain (Num 1), Rejects (StepError ''boom''), Plain (Num 3)]"
    by fastforce
  with r2 c2 have three: "\<exists>out st. executeBucket [] unsafeBucket = Some (out, st) \<and>
      store st 0 = Some [Plain (Num 1), Rejects (StepError ''boom''), Plain (Num 3)] \<and>
      routed st 0 [Plain (Num 1), Rejects (StepError ''boom''), Plain (Num 3)]"
    by blast
  from one run two three show ?thesis by blast
qed

text \<open>
  Claim C3. The column for a fault \<open>e\<close> of step \<open>s\<close> holds \<open>bucket.size\<close> copies of
  the one ErrorValue made from \<open>e\<close>. When \<open>execute\<close> raises \<open>e\<close> synchronously,
  \<open>executeStep\<close> returns normally with \<open>hasErrors\<close> true and no rejection added, and
  that column is published at once (a sync-and-safe step) or waits for its continuation.
  When the future \<open>execute\<close> returned rejects with \<open>e\<close>, its continuation sets
  \<open>hasErrors\<close>, adds no rejection and registers that column for publication. The
  continuation that publishes it stores it unchanged, adds no rejection and leaves
  \<open>hasErrors\<close> true.
\<close>

theorem step_fault_is_broadcast:
  "broadcast st s e = replicate (bucket_size st) (Plain (ErrV (newCrystalError e))) \<and>
   (s \<notin> inProgressSteps st \<and> invoke st s = Throws e \<and>
    finite (pendingSteps st) \<and> card (pendingSteps st) \<le> fuel \<longrightarrow>
      (\<exists>p st'. executeStep (Suc fuel) s st = Some (Inr (p, st')) \<and> hasErrors st' \<and>
         rejection st' = rejection st \<and>
         (if isSyncAndSafe (stepOf (layerPlan st) s)
          then store st' s = Some (broadcast st s e)
          else AwaitSettled s (broadcast st s e) \<in> set (tasks st')))) \<and>
   (i < length (tasks st) \<and> tasks st ! i = AwaitExecute s (Rejected e) \<longrightarrow>
      (\<exists>st'. fire fuel i st = Some st' \<and> hasErrors st' \<and> rejection st' = rejection st \<and>
         AwaitSettled s (broadcast st s e) \<in> set (tasks st'))) \<and>
   (i < length (tasks st) \<and> tasks st ! i = AwaitSettled s (broadcast st0 s e) \<and>
    finite (pendingSteps st) \<and> card (pendingSteps st) < fuel \<longrightarrow>
      (\<exists>st'. fire fuel i st = Some st' \<and> store st' s = Some (broadcast st0 s e) \<and>
         rejection st' = rejection st \<and> (hasErrors st \<longrightarrow> hasErrors st')))"
proof (intro conjI impI)
  show "broadcast st s e = replicate (bucket_size st) (Plain (ErrV (newCrystalError e)))"
    by (rule broadcast_replicate)
next
  assume h: "s \<notin> inProgressSteps st \<and> invoke st s = Throws e \<and>
    finite (pendingSteps st) \<and> card (pendingSteps st) \<le> fuel"
  then have "caught st s = Some e" by (simp add: caught_def)
  with h show "\<exists>p st'. executeStep (Suc fuel) s st = Some (Inr (p, st')) \<and> hasErrors st' \<and>
         rejection st' = rejection st \<and>
         (if isSyncAndSafe (stepOf (layerPlan st) s)
          then store st' s = Some (broadcast st s e)
          else AwaitSettled s (broadcast st s e) \<in> set (tasks st'))"
    by (intro executeStep_caught) simp_all
next
  assume "i < length (tasks st) \<and> tasks st ! i = AwaitExecute s (Rejected e)"
  then show "\<exists>st'. fire fuel i st = Some st' \<and> hasErrors st' \<and> rejection st' = rejection st \<and>
         AwaitSettled s (broadcast st s e) \<in> set (tasks st')"
    by (simp add: fire_rejected)
next
  assume "i < length (tasks st) \<and> tasks st ! i = AwaitSettled s (broadcast st0 s e) \<and>
    finite (pendingSteps st) \<and> card (pendingSteps st) < fuel"
  then show "\<exists>st'. fire fuel i st = Some st' \<and> store st' s = Some (broadcast st0 s e) \<and>
         rejection st' = rejection st \<and> (hasErrors st \<longrightarrow> hasErrors st')"
    using fire_published [of i st s "broadcast st0 s e" fuel] by (simp add: settleAll_broadcast)
qed

theorem step_fault_is_broadcast_witness:
  "(\<exists>p st'. executeStep 2 0 (initial raiseBucket) = Some (Inr (p, st')) \<and> hasErrors st' \<and>
      rejection st' = None \<and> store st' 0 = Some (replicate 3 (Plain (ErrV boom)))) \<and>
   (\<exists>st'. fire 2 0 (awaiting raiseBucket (AwaitExecute 0 (Rejected (StepError ''boom'')))) = Some st' \<and>
      hasErrors st' \<and> AwaitSettled 0 (replicate 3 (Plain (ErrV boom))) \<in> set (tasks st')) \<and>
   (\<exists>st'. fire 2 0 (awaiting raiseBucket (AwaitSettled 0 (replicate 3 (Plain (ErrV boom))))) = Some st' \<and>
      store st' 0 = Some (replicate 3 (Plain (ErrV boom))))"
proof -
  let ?e = "StepError ''boom''"
  let ?a = "initial raiseBucket"
  let ?b = "awaiting raiseBucket (AwaitExecute 0 (Rejected ?e))"
  let ?c = "awaiting raiseBucket (AwaitSettled 0 (replicate 3 (Plain (ErrV boom))))"
  have bc: "broadcast st 0 ?e = replicate 3 (Plain (ErrV boom))" if "bucket_size st = 3" for st
    using that by (simp add: broadcast_replicate boom_def)
  have sz: "bucket_size ?a = 3" "bucket_size ?b = 3" "bucket_size ?c = 3"
    by (simp_all add: initial_def awaiting_def raiseBucket_def bucketOf_def)
  have pend: "pendingSteps ?a = {0}" "pendingSteps ?b = {0}" "pendingSteps ?c = {0}"
    by (simp_all add: initial_def awaiting_def raiseBucket_def bucketOf_def)
  have inv: "invoke ?a 0 = Throws ?e"
    by (simp add: invoke_def depsFor_def initial_def raiseBucket_def bucketOf_def mkStep_def
        raises_def reallyExecuteStepWithNoErrors_def)
  have safe: "isSyncAndSafe (stepOf (layerPlan ?a) 0)"
    by (simp add: initial_def raiseBucket_def bucketOf_def mkStep_def)
  have idle: "inProgressSteps ?a = {}" "rejection ?a = None"
    by (simp_all add: initial_def)
  have tb: "tasks ?b = [AwaitExecute 0 (Rejected ?e)]"
    and tc: "tasks ?c = [AwaitSettled 0 (replicate 3 (Plain (ErrV boom)))]"
    by (simp_all add: awaiting_def)
  note inst = step_fault_is_broadcast [where s = 0 and e = ?e and i = 0]
  have two_is: "Suc 1 = 2" by simp
  from inst [where st = ?a and fuel = 1] have
    "0 \<notin> inProgressSteps ?a \<and> invoke ?a 0 = Throws ?e \<and>
       finite (pendingSteps ?a) \<and> card (pendingSteps ?a) \<le> 1 \<longrightarrow>
     (\<exists>p st'. executeStep (Suc 1) 0 ?a = Some (Inr (p, st')) \<and> hasErrors st' \<and>
         rejection st' = rejection ?a \<and>
         (if isSyncAndSafe (stepOf (layerPlan ?a) 0)
          then store st' 0 = Some (broadcast ?a 0 ?e)
          else AwaitSettled 0 (broadcast ?a 0 ?e) \<in> set (tasks st')))"
    by blast
  then have one: "\<exists>p st'. executeStep 2 0 ?a = Some (Inr (p, st')) \<and> hasErrors st' \<and>
      rejection st' = None \<and> store st' 0 = Some (replicate 3 (Plain (ErrV boom)))"
    unfolding two_is by (simp add: inv safe pend idle bc [OF sz(1)])
  from inst [where st = ?b] have
    "0 < length (tasks ?b) \<and> tasks ?b ! 0 = AwaitExecute 0 (Rejected ?e) \<longrightarrow>
      (\<exists>st'. fire 2 0 ?b = Some st' \<and> hasErrors st' \<and> rejection st' = rejection ?b \<and>
         AwaitSettled 0 (broadcast ?b 0 ?e) \<in> set (tasks st'))"
    by blast
  then have two: "\<exists>st'. fire 2 0 ?b = Some st' \<and>
      hasErrors st' \<and> AwaitSettled 0 (replicate 3 (Plain (ErrV boom))) \<in> set (tasks st')"
    by (auto simp: tb bc [OF sz(2)])
  from inst [where st = ?c and ?st0.0 = ?c and fuel = 2] have
    "0 < length (tasks ?c) \<and> tasks ?c ! 0 = AwaitSettled 0 (broadcast ?c 0 ?e) \<and>
      finite (pendingSteps ?c) \<and> card (pendingSteps ?c) < 2 \<longrightarrow>
      (\<exists>st'. fire 2 0 ?c = Some st' \<and> store st' 0 = Some (broadcast ?c 0 ?e) \<and>
         rejection st' = rejection ?c \<and> (hasErrors ?c \<longrightarrow> hasErrors st'))"
    by blast
  then have three: "\<exists>st'. fire 2 0 ?c = Some st' \<and>
      store st' 0 = Some (replicate 3 (Plain (ErrV boom)))"
    by (auto simp: tc pend bc [OF sz(3)])
  from one two three show ?thesis by blast
qed

text \<open>
  Claim C4. \<open>completedStep\<close> throws for a result that is not a sequence of
  \<open>bucket.size\<close> entries, and the exception is meant to leave the executor. It does so
  only when the result arrives through a future: the throw then rejects the chain of
  promises, and the future \<open>executeBucket\<close> returned rejects with it. When \<open>execute\<close>
  returns the same result synchronously, \<open>completedStep\<close> is called inside the \<open>try\<close>
  block of \<open>executeStep\<close>, whose \<open>catch\<close> block takes the exception for a fault of the
  step: \<open>executeStep\<close> returns normally, nothing is rejected, \<open>hasErrors\<close> becomes true
  and the step's column is the ErrorValue of the shape error on every row. A bucket whose
  one step returns \<open>null\<close>, or a column one row short, completes at once; with
  \<open>null\<close> delivered through a future its future rejects.
\<close>

theorem synchronous_shape_violation_is_swallowed:
  "(shapeError n s r = None \<longleftrightarrow> (\<exists>xs. r = Array xs \<and> length xs = n)) \<and>
   (shapeError (bucket_size st) s r = Some e \<longrightarrow>
      completedStep exec s r noNewErrors st = Some (Inl e) \<and> isShapeError e) \<and>
   (s \<notin> inProgressSteps st \<and>
    (hasErrors st \<longrightarrow> list_all (\<lambda>d. d = Some []) (depsFor st s)) \<and>
    execute (stepOf (layerPlan st) s) (depsFor st s) = Returns r \<and>
    shapeError (bucket_size st) s r = Some e \<and>
    finite (pendingSteps st) \<and> card (pendingSteps st) \<le> fuel \<longrightarrow>
      (\<exists>p st'. executeStep (Suc fuel) s st = Some (Inr (p, st')) \<and> hasErrors st' \<and>
         rejection st' = rejection st \<and>
         (if isSyncAndSafe (stepOf (layerPlan st) s)
          then store st' s = Some (broadcast st s e)
          else AwaitSettled s (broadcast st s e) \<in> set (tasks st')))) \<and>
   (i < length (tasks st) \<and> tasks st ! i = AwaitExecute s (Fulfilled r) \<and>
    shapeError (bucket_size st) s r = Some e \<and> rejection st = None \<longrightarrow>
      map_option rejection (fire fuel i st) = Some (Some e)) \<and>
   map_option (\<lambda>(out, st). (out, store st 0, hasErrors st, rejection st))
     (executeBucket [] nullBucket) =
   Some (Direct, Some (replicate 2 (Plain (ErrV (newCrystalError (ResultNotArray 0))))),
         True, None) \<and>
   map_option (\<lambda>(out, st). (out, store st 0, hasErrors st, rejection st))
     (executeBucket [] shortBucket) =
   Some (Direct, Some (replicate 2 (Plain (ErrV (newCrystalError (ResultWrongLength 0 2 1))))),
         True, None) \<and>
   map_option fst (executeBucket [0] asyncNullBucket) = Some (RejectedWith (ResultNotArray 0))"
proof (intro conjI impI)
  show "shapeError n s r = None \<longleftrightarrow> (\<exists>xs. r = Array xs \<and> length xs = n)"
    by (rule shapeError_None)
next
  assume h: "shapeError (bucket_size st) s r = Some e"
  then show "completedStep exec s r noNewErrors st = Some (Inl e)"
    by (rule completedStep_invalid)
  from h show "isShapeError e"
    by (auto simp: shapeError_def isShapeError_def split: returned.splits if_splits)
next
  assume h: "s \<notin> inProgressSteps st \<and>
    (hasErrors st \<longrightarrow> list_all (\<lambda>d. d = Some []) (depsFor st s)) \<and>
    execute (stepOf (layerPlan st) s) (depsFor st s) = Returns r \<and>
    shapeError (bucket_size st) s r = Some e \<and>
    finite (pendingSteps st) \<and> card (pendingSteps st) \<le> fuel"
  then have "invoke st s = Returns r" using invoke_direct [of st s] by simp
  with h have "caught st s = Some e" by (simp add: caught_def)
  with h show "\<exists>p st'. executeStep (Suc fuel) s st = Some (Inr (p, st')) \<and> hasErrors st' \<and>
         rejection st' = rejection st \<and>
         (if isSyncAndSafe (stepOf (layerPlan st) s)
          then store st' s = Some (broadcast st s e)
          else AwaitSettled s (broadcast st s e) \<in> set (tasks st'))"
    by (intro executeStep_caught) simp_all
next
  assume "i < length (tasks st) \<and> tasks st ! i = AwaitExecute s (Fulfilled r) \<and>
    shapeError (bucket_size st) s r = Some e \<and> rejection st = None"
  then show "map_option rejection (fire fuel i st) = Some (Some e)"
    by (simp add: fire_misshapen reject_def without_def)
next
  show "map_option (\<lambda>(out, st). (out, store st 0, hasErrors st, rejection st))
     (executeBucket [] nullBucket) =
   Some (Direct, Some (replicate 2 (Plain (ErrV (newCrystalError (ResultNotArray 0))))),
         True, None)"
    by code_simp
next
  show "map_option (\<lambda>(out, st). (out, store st 0, hasErrors st, rejection st))
     (executeBucket [] shortBucket) =
   Some (Direct, Some (replicate 2 (Plain (ErrV (newCrystalError (ResultWrongLength 0 2 1))))),
         True, None)"
    by code_simp
next
  show "map_option fst (executeBucket [0] asyncNullBucket) = Some (RejectedWith (ResultNotArray 0))"
    by code_simp
qed

theorem synchronous_shape_violation_is_swallowed_witness:
  "(\<exists>p st'. executeStep 2 0 (initial nullBucket) = Some (Inr (p, st')) \<and> hasErrors st' \<and>
      rejection st' = None \<and>
      store st' 0 = Some (replicate 2 (Plain (ErrV (newCrystalError (ResultNotArray 0)))))) \<and>
   map_option rejection (fire 2 0 (awaiting asyncNullBucket (AwaitExecute 0 (Fulfilled Nullish)))) =
     Some (Some (ResultNotArray 0)) \<and>
   isShapeError (ResultNotArray 0)"
proof -
  let ?e = "ResultNotArray 0"
  let ?a = "initial nullBucket"
  let ?b = "awaiting asyncNullBucket (AwaitExecute 0 (Fulfilled Nullish))"
  have sz: "bucket_size ?a = 2" "bucket_size ?b = 2"
    by (simp_all add: initial_def awaiting_def nullBucket_def asyncNullBucket_def bucketOf_def)
  have pend: "pendingSteps ?a = {0}"
    by (simp add: initial_def nullBucket_def bucketOf_def)
  have clean: "\<not> hasErrors ?a"
    by (simp add: initial_def nullBucket_def bucketOf_def)
  have ex: "execute (stepOf (layerPlan ?a) 0) (depsFor ?a 0) = Returns Nullish"
    by (simp add: initial_def nullBucket_def bucketOf_def mkStep_def)
  have safe: "isSyncAndSafe (stepOf (layerPlan ?a) 0)"
    by (simp add: initial_def nullBucket_def bucketOf_def mkStep_def)
  have idle: "inProgressSteps ?a = {}" "rejection ?a = None" "rejection ?b = None"
    by (simp_all add: initial_def awaiting_def)
  have tb: "tasks ?b = [AwaitExecute 0 (Fulfilled Nullish)]"
    by (simp add: awaiting_def)
  have se: "shapeError 2 0 Nullish = Some ?e" by (simp add: shapeError_def)
  have two_is: "Suc 1 = 2" by simp
  note inst = synchronous_shape_violation_is_swallowed
    [where s = 0 and e = ?e and r = Nullish and i = 0]
  from inst [where st = ?a and fuel = 1] have
    "0 \<notin> inProgressSteps ?a \<and>
       (hasErrors ?a \<longrightarrow> list_all (\<lambda>d. d = Some []) (depsFor ?a 0)) \<and>
       execute (stepOf (layerPlan ?a) 0) (depsFor ?a 0) = Returns Nullish \<and>
       shapeError (bucket_size ?a) 0 Nullish = Some ?e \<and>
       finite (pendingSteps ?a) \<and> card (pendingSteps ?a) \<le> 1 \<longrightarrow>
     (\<exists>p st'. executeStep (Suc 1) 0 ?a = Some (Inr (p, st')) \<and> hasErrors st' \<and>
         rejection st' = rejection ?a \<and>
         (if isSyncAndSafe (stepOf (layerPlan ?a) 0)
          then store st' 0 = Some (broadcast ?a 0 ?e)
          else AwaitSettled 0 (broadcast ?a 0 ?e) \<in> set (tasks st')))"
    by blast
  then have one: "\<exists>p st'. executeStep 2 0 ?a = Some (Inr (p, st')) \<and> hasErrors st' \<and>
      rejection st' = None \<and>
      store st' 0 = Some (replicate 2 (Plain (ErrV (newCrystalError ?e))))"
    unfolding two_is by (simp add: ex clean safe pend idle sz se broadcast_replicate)
  from inst [where st = ?b and fuel = 2] have
    "0 < length (tasks ?b) \<and> tasks ?b ! 0 = AwaitExecute 0 (Fulfilled Nullish) \<and>
       shapeError (bucket_size ?b) 0 Nullish = Some ?e \<and> rejection ?b = None \<longrightarrow>
     map_option rejection (fire 2 0 ?b) = Some (Some ?e)"
    by blast
  then have two: "map_option rejection (fire 2 0 ?b) = Some (Some ?e)"
    by (simp add: tb sz se idle)
  from inst [where st = ?b and n = 2] have
    "shapeError (bucket_size ?b) 0 Nullish = Some ?e \<longrightarrow>
       completedStep exec 0 Nullish noNewErrors ?b = Some (Inl ?e) \<and> isShapeError ?e"
    by blast
  then have three: "isShapeError ?e" by (simp add: sz se)
  from one two three show ?thesis by blast
qed

text \<open>
  Claim C9. No operation changes \<open>hasErrors\<close> from true to false: not a call of
  \<open>executeStep\<close>, not a continuation, and not a whole run; a longer schedule (a later
  moment of the same run) finds it true whenever a shorter one did.
\<close>

theorem hasErrors_never_reset:
  "(executeStep fuel s a = Some (Inr (p, a')) \<longrightarrow> hasErrors a \<longrightarrow> hasErrors a') \<and>
   (fire fuel i a = Some a' \<longrightarrow> hasErrors a \<longrightarrow> hasErrors a') \<and>
   (executeBucket sch b = Some (out, st) \<longrightarrow> executeBucket (sch @ sch') b = Some (out', st') \<longrightarrow>
      (hasErrors b \<longrightarrow> hasErrors st) \<and> (hasErrors st \<longrightarrow> hasErrors st'))"
proof (intro conjI impI)
  assume "executeStep fuel s a = Some (Inr (p, a'))" "hasErrors a"
  with executeStep_sound [where Q = "\<lambda>s st. True" and s = s and st = a and fuel = fuel]
  show "hasErrors a'" by (auto dest: dispatches_star_hasErrors)
next
  assume "fire fuel i a = Some a'" "hasErrors a"
  with fire_advances [where Q = "\<lambda>s st. True" and st = a] show "hasErrors a'"
    by (auto dest: advances_star_hasErrors)
next
  assume "executeBucket sch b = Some (out, st)" "hasErrors b"
  with executeBucket_advances [of sch b out st] show "hasErrors st"
    by (auto dest!: advances_star_hasErrors simp: initial_def)
next
  assume one: "executeBucket sch b = Some (out, st)"
    and two: "executeBucket (sch @ sch') b = Some (out', st')" and h: "hasErrors st"
  from one obtain p st1 where
    start: "dispatchStartSteps (fuelFor b) (startSteps (layerPlan b)) (False, initial b) =
      Some (p, st1)"
    by (auto simp: executeBucket_def split: option.splits)
  show "hasErrors st'"
  proof (cases p)
    case False
    with one two start have "st' = st"
      by (auto simp: executeBucket_def split: sum.splits)
    with h show ?thesis by simp
  next
    case True
    with one start obtain st2 where
      a: "runSchedule (fuelFor b) sch st1 = Some st2" "settled st2 = (out, st)"
      by (auto simp: executeBucket_def)
    from True two start obtain st3 where
      b: "runSchedule (fuelFor b) (sch @ sch') st1 = Some st3" "settled st3 = (out', st')"
      by (auto simp: executeBucket_def)
    from a(1) b(1) have "runSchedule (fuelFor b) sch' st2 = Some st3"
      by (simp add: runSchedule_append)
    then have "(advances (\<lambda>s st. True))\<^sup>*\<^sup>* st2 st3" by (rule runSchedule_advances)
    moreover from a(2) b(2) have "st = st2" "st' = st3" by (auto dest: settled_state)
    ultimately show ?thesis using h by (auto dest: advances_star_hasErrors)
  qed
qed

theorem hasErrors_never_reset_witness:
  "map_option (\<lambda>(out, st). hasErrors st) (executeBucket [] rowErrorBucket) = Some False \<and>
   map_option (\<lambda>(out, st). hasErrors st) (executeBucket [0] rowErrorBucket) = Some True \<and>
   map_option (\<lambda>(out, st). hasErrors st) (executeBucket [0, 0] rowErrorBucket) = Some True"
proof -
  have one: "map_option (\<lambda>(out, st). hasErrors st) (executeBucket [0] rowErrorBucket) = Some True"
    by code_simp
  have zero: "map_option (\<lambda>(out, st). hasErrors st) (executeBucket [] rowErrorBucket) = Some False"
    by code_simp
  from one obtain out st where
    a: "executeBucket [0] rowErrorBucket = Some (out, st)" and h: "hasErrors st" by auto
  from executeBucket_total [of "[0] @ [0]" rowErrorBucket] obtain out' st' where
    b: "executeBucket ([0] @ [0]) rowErrorBucket = Some (out', st')" by blast
  from hasErrors_never_reset [where sch = "[0]" and b = rowErrorBucket and out = out and st = st and sch' = "[0]"
      and out' = out' and st' = st'] a b h
  have "hasErrors st'" by blast
  with b zero one show ?thesis by simp
qed

section \<open>The error-aware invoker never merges\<close>

text \<open>
  Claim C1. The error-aware invoker does not get as far as filtering and merging. Its
  scan evaluates \<open>isCrystalError(v)\<close> on the first entry of the first dependency column
  that has one, and executeBucket.ts binds no such identifier: whenever its first
  dependency column has a row the invoker throws a ReferenceError, and in general what it
  gives back is that throw, the TypeError of an \<open>undefined\<close> column, or the result of
  \<open>execute\<close> on the unfiltered columns; never a merged column. In the example, step 0
  publishes \<open>[1, ERR, 3]\<close> and sets \<open>hasErrors\<close>; step 1, which adds ten, is then
  dispatched on that column through the error-aware invoker. The column published for
  step 1 is the ErrorValue of the ReferenceError on all three rows: row 1 does not hold
  the ErrorValue of row 1 of the dependency column, and rows 0 and 2 do not hold 11 and
  13. \<open>mergeErrorsBackIn\<close> itself, given the step's answer \<open>[11, 13]\<close> for the filtered
  batch and that ErrorValue for row 1, returns \<open>[11, ERR, 13]\<close>; it is never called.
\<close>

theorem error_aware_invoker_throws_before_merging:
  "reallyExecuteStepWithErrors step (Some (v # depList) # deps) = Throws ReferenceError \<and>
   (reallyExecuteStepWithErrors step deps' = execute step deps' \<or>
    reallyExecuteStepWithErrors step deps' = Throws ReferenceError \<or>
    reallyExecuteStepWithErrors step deps' = Throws TypeError) \<and>
   map_option (\<lambda>(out, st). (out, hasErrors st, dispatched st ! 1, store st 1))
     (executeBucket [0] rowErrorBucket) =
   Some (Resolved, True, (1, [Some [Plain (Num 1), Plain (ErrV boom), Plain (Num 3)]]),
         Some (replicate 3 (Plain (ErrV (newCrystalError ReferenceError))))) \<and>
   mergeErrorsBackIn (Array [Plain (Num 11), Plain (Num 13)]) [1 \<mapsto> Plain (ErrV boom)] 3 =
     Inr [Plain (Num 11), Plain (ErrV boom), Plain (Num 13)]"
proof (intro conjI)
  show "reallyExecuteStepWithErrors step (Some (v # depList) # deps) = Throws ReferenceError"
    by (rule invoker_throws)
  show "reallyExecuteStepWithErrors step deps' = execute step deps' \<or>
    reallyExecuteStepWithErrors step deps' = Throws ReferenceError \<or>
    reallyExecuteStepWithErrors step deps' = Throws TypeError"
    by (rule invoker_cases)
  show "map_option (\<lambda>(out, st). (out, hasErrors st, dispatched st ! 1, store st 1))
     (executeBucket [0] rowErrorBucket) =
   Some (Resolved, True, (1, [Some [Plain (Num 1), Plain (ErrV boom), Plain (Num 3)]]),
         Some (replicate 3 (Plain (ErrV (newCrystalError ReferenceError)))))"
    by code_simp
  show "mergeErrorsBackIn (Array [Plain (Num 11), Plain (Num 13)]) [1 \<mapsto> Plain (ErrV boom)] 3 =
     Inr [Plain (Num 11), Plain (ErrV boom), Plain (Num 13)]"
    by code_simp
qed

section \<open>ErrorValues in columns and the flag\<close>

lemma isCrystalError_carriesError: "isCrystalError v \<Longrightarrow> carriesError v"
  by (auto simp: isCrystalError_def carriesError_def split: entry.splits datum.splits)

lemma depsFor_errorFree:
  assumes "errorsFlagged a" and "\<not> hasErrors a" and "Some d \<in> set (depsFor a s)"
  shows "errorFree d"
  using assms by (auto simp: errorsFlagged_def depsFor_def split: if_splits)

lemma invoke_errorFree:
  assumes forge: "forgeFree (layerPlan a)" and flagged: "errorsFlagged a" and clean: "\<not> hasErrors a"
    and res: "invoke a s = Returns (Array xs) \<or> invoke a s = Promised (Fulfilled (Array xs))"
  shows "errorFree xs"
proof -
  from clean res have
    "execute (stepOf (layerPlan a) s) (depsFor a s) = Returns (Array xs) \<or>
     execute (stepOf (layerPlan a) s) (depsFor a s) = Promised (Fulfilled (Array xs))"
    by (simp add: invoke_def reallyExecuteStepWithNoErrors_def)
  moreover have "\<forall>d. Some d \<in> set (depsFor a s) \<longrightarrow> errorFree d"
    using depsFor_errorFree [OF flagged clean] by blast
  ultimately show ?thesis using forge unfolding forgeFree_def by blast
qed

lemma taskErrorFree_AwaitExecute:
  "taskErrorFree (AwaitExecute s p) \<longleftrightarrow> (\<forall>xs. p = Fulfilled (Array xs) \<longrightarrow> errorFree xs)"
  by (cases "AwaitExecute s p" rule: taskErrorFree.cases) auto

lemma dispatches_errorsFlagged:
  assumes step: "dispatches Q a b" and forge: "forgeFree (layerPlan a)" and flagged: "errorsFlagged a"
  shows "errorsFlagged b"
  using step
proof (cases rule: dispatches.cases)
  case (async s p)
  show ?thesis
  proof (cases "hasErrors a")
    case True
    with async show ?thesis by (simp add: errorsFlagged_def)
  next
    case False
    have "taskErrorFree (AwaitExecute s p)"
      unfolding taskErrorFree_AwaitExecute
      using invoke_errorFree [OF forge flagged False, of s] async(4) by auto
    moreover have "\<forall>d. Some d \<in> set (depsFor a s) \<longrightarrow> errorFree d"
      using depsFor_errorFree [OF flagged False] by blast
    ultimately show ?thesis
      using flagged False async(1) by (auto simp: errorsFlagged_def)
  qed
next
  case (slow s xs)
  show ?thesis
  proof (cases "hasErrors a \<or> caught a s \<noteq> None")
    case True
    with slow show ?thesis by (simp add: errorsFlagged_def)
  next
    case False
    then have clean: "\<not> hasErrors a" and c: "caught a s = None" by simp_all
    from syncColumn_uncaught [OF slow(4) c] have "errorFree xs"
      using invoke_errorFree [OF forge flagged clean, of s xs] by simp
    moreover have "\<forall>d. Some d \<in> set (depsFor a s) \<longrightarrow> errorFree d"
      using depsFor_errorFree [OF flagged clean] by blast
    ultimately show ?thesis
      using flagged clean c slow(1) by (auto simp: errorsFlagged_def)
  qed
next
  case (fast s xs)
  show ?thesis
  proof (cases "hasErrors a \<or> caught a s \<noteq> None")
    case True
    with fast show ?thesis by (simp add: errorsFlagged_def)
  next
    case False
    then have clean: "\<not> hasErrors a" and c: "caught a s = None" by simp_all
    from syncColumn_uncaught [OF fast(4) c] have "errorFree xs"
      using invoke_errorFree [OF forge flagged clean, of s xs] by simp
    moreover have "\<forall>d. Some d \<in> set (depsFor a s) \<longrightarrow> errorFree d"
      using depsFor_errorFree [OF flagged clean] by blast
    ultimately show ?thesis
      using flagged clean c fast(1) by (auto simp: errorsFlagged_def)
  qed
qed

lemma set_remove_nth: "set (take i xs @ drop (Suc i) xs) \<subseteq> set xs"
  by (auto dest: in_set_takeD in_set_dropD)

lemma settled_errorFree:
  "errorFree rs \<Longrightarrow> \<not> (\<exists>t\<in>set rs. isRejects t) \<Longrightarrow> errorFree (fst (settleAll s rs st))"
  by (auto simp: settleAll_column errorFree_def carriesError_def isRejects_def
      split: entry.splits datum.splits)

lemma settles_errorsFlagged:
  assumes step: "settles a b" and flagged: "errorsFlagged a"
  shows "errorsFlagged b"
  using step
proof (cases rule: settles.cases)
  case (fulfilled i s xs)
  show ?thesis
  proof (cases "hasErrors a")
    case True
    with fulfilled show ?thesis by (simp add: errorsFlagged_def)
  next
    case False
    from fulfilled(2,3) have "AwaitExecute s (Fulfilled (Array xs)) \<in> set (tasks a)"
      by (metis nth_mem)
    with flagged False have "errorFree xs" by (auto simp: errorsFlagged_def)
    with flagged False fulfilled(1) set_remove_nth [of i "tasks a"] show ?thesis
      by (auto simp: errorsFlagged_def)
  qed
next
  case (misshapen i s r e)
  with flagged set_remove_nth [of i "tasks a"] show ?thesis
    by (auto simp: errorsFlagged_def reject_def without_def)
next
  case (rejected i s e)
  then show ?thesis by (simp add: errorsFlagged_def)
next
  case (published i s rs)
  show ?thesis
  proof (cases "hasErrors a \<or> (\<exists>t\<in>set rs. isRejects t)")
    case True
    with published show ?thesis by (simp add: errorsFlagged_def)
  next
    case False
    from published(2,3) have "AwaitSettled s rs \<in> set (tasks a)" by (metis nth_mem)
    with flagged False have "errorFree rs" by (auto simp: errorsFlagged_def)
    with False have "errorFree (fst (settleAll s rs a))" by (intro settled_errorFree) simp_all
    with flagged False published(1) set_remove_nth [of i "tasks a"] show ?thesis
      by (auto simp: errorsFlagged_def)
  qed
qed

lemma advances_star_errorsFlagged:
  "(advances Q)\<^sup>*\<^sup>* a b \<Longrightarrow> forgeFree (layerPlan a) \<Longrightarrow> errorsFlagged a \<Longrightarrow> errorsFlagged b"
proof (induction rule: rtranclp_induct)
  case base
  then show ?case by simp
next
  case (step y z)
  from step.hyps(1) have "layerPlan y = layerPlan a" by (simp add: advances_star_static)
  with step show ?case
    by (auto simp: advances_def dest: dispatches_errorsFlagged settles_errorsFlagged)
qed

lemma carriesError_plusTen:
  "\<not> carriesError v \<Longrightarrow>
   \<not> carriesError (case v of Plain (Num n) \<Rightarrow> Plain (Num (n + 10)) | _ \<Rightarrow> v)"
  by (auto simp: carriesError_def split: entry.splits datum.splits)

lemma errorFree_plusTen:
  assumes res: "plusTen deps = Returns (Array xs)"
    and clean: "\<forall>d. Some d \<in> set deps \<longrightarrow> errorFree d"
  shows "errorFree xs"
proof -
  from res obtain ys rest where deps: "deps = Some ys # rest"
    and xs: "xs = map (\<lambda>v. case v of Plain (Num n) \<Rightarrow> Plain (Num (n + 10)) | _ \<Rightarrow> v) ys"
    by (auto simp: plusTen_def split: list.splits option.splits)
  from clean deps have "errorFree ys" by simp
  then show ?thesis
    unfolding xs errorFree_def by (auto dest: carriesError_plusTen)
qed

lemma forgeFree_rowErrorBucket: "forgeFree (layerPlan rowErrorBucket)"
proof -
  have "errorFree xs"
    if res: "execute (stepOf (layerPlan rowErrorBucket) s) deps = Returns (Array xs) \<or>
         execute (stepOf (layerPlan rowErrorBucket) s) deps = Promised (Fulfilled (Array xs))"
      and clean: "\<forall>d. Some d \<in> set deps \<longrightarrow> errorFree d" for s deps xs
  proof -
    consider "s = 0" | "s = 1" | "2 \<le> s" by linarith
    then show ?thesis
    proof cases
      case 1
      with res show ?thesis
        by (auto simp: rowErrorBucket_def bucketOf_def mkStep_def always_def errorFree_def
            carriesError_def)
    next
      case 2
      with res have "plusTen deps = Returns (Array xs)"
        by (auto simp: rowErrorBucket_def bucketOf_def mkStep_def plusTen_def
            split: list.splits option.splits)
      then show ?thesis using clean by (rule errorFree_plusTen)
    next
      case 3
      with res show ?thesis
        by (auto simp: rowErrorBucket_def bucketOf_def mkStep_def always_def errorFree_def)
    qed
  qed
  then show ?thesis unfolding forgeFree_def by blast
qed

lemma settledEntry_error:
  "isCrystalError (settledEntry t) \<Longrightarrow> \<not> isRejects t \<Longrightarrow> carriesError t"
  by (auto simp: settledEntry_def isCrystalError_def isRejects_def carriesError_def
      split: entry.splits datum.splits)

lemma returnedBy_delivered: "returnedBy st s R \<Longrightarrow> delivered st s R"
  unfolding returnedBy_def delivered_def by blast

lemma routed_unflagged_error:
  assumes r: "routed st s xs" and clean: "\<not> hasErrors st"
    and v: "v \<in> set xs" "isCrystalError v"
  shows "\<exists>R. delivered st s R \<and> (xs = R \<or> xs = map settledEntry R) \<and>
           (\<exists>t\<in>set R. carriesError t)"
proof -
  from r clean consider
      (settled) R where "delivered st s R" "xs = map settledEntry R" "\<forall>t\<in>set R. \<not> isRejects t"
    | (stored) "returnedBy st s xs"
    unfolding routed_def by blast
  then show ?thesis
  proof cases
    case settled
    from v(1) settled(2) obtain t where t: "t \<in> set R" "v = settledEntry t" by auto
    with v(2) settled(3) have "carriesError t" by (auto intro: settledEntry_error)
    with t(1) settled(1,2) show ?thesis by blast
  next
    case stored
    then have "delivered st s xs" by (rule returnedBy_delivered)
    moreover from v have "\<exists>t\<in>set xs. carriesError t"
      by (blast intro: isCrystalError_carriesError)
    ultimately show ?thesis by blast
  qed
qed

text \<open>
  Claim C8, as stated, fails: an ErrorValue that a step returns by value is published,
  and handed on to the dependent step, with \<open>hasErrors\<close> still false, whether the step
  is sync-and-safe or not; and so is one that the bucket's store holds from the start.
\<close>

theorem returned_error_value_is_not_flagged:
  "map_option (\<lambda>(out, st). (out, store st 0, dispatched st ! 1, hasErrors st))
     (executeBucket [0] (forgedBucket False)) =
   Some (Resolved, Some [Plain (Num 1), Plain (ErrV boom), Plain (Num 3)],
         (1, [Some [Plain (Num 1), Plain (ErrV boom), Plain (Num 3)]]), False) \<and>
   map_option (\<lambda>(out, st). (out, store st 0, dispatched st ! 1, hasErrors st))
     (executeBucket [] (forgedBucket True)) =
   Some (Direct, Some [Plain (Num 1), Plain (ErrV boom), Plain (Num 3)],
         (1, [Some [Plain (Num 1), Plain (ErrV boom), Plain (Num 3)]]), False) \<and>
   map_option (\<lambda>(out, st). (out, dispatched st, store st 1, hasErrors st))
     (executeBucket [] preloadedBucket) =
   Some (Direct, [(1, [Some [Plain (Num 1), Plain (ErrV boom), Plain (Num 3)]])],
         Some [Plain (Num 11), Plain (ErrV boom), Plain (Num 13)], False)"
  by code_simp

text \<open>
  Claim C8, amended. \<open>hasErrors\<close> is set where the executor itself makes an ErrorValue
  (a row of a settled column rejected, a step raised, its future rejected, an exception
  was caught in dispatch), not where an ErrorValue enters a column in another way. At
  every moment of every run with \<open>hasErrors\<close> false: a published column was in the store
  from the start, or is the column its step delivered, no row of it rejected, settled, or
  is the very column a sync-and-safe step returned; if it holds an ErrorValue, then the
  column the step delivered carried one, by value or as the value of a fulfilled row; and
  a dependency column handed to a step that holds an ErrorValue was supplied from outside
  (the initial store, \<open>noDepsList\<close>) or is such a delivered column. If no step delivers
  an ErrorValue when its inputs hold none, and the bucket comes with \<open>hasErrors\<close> true
  whenever its store or \<open>noDepsList\<close> holds one, then \<open>hasErrors\<close> is true whenever a
  published column or a dependency column handed to a step contains an ErrorValue.
\<close>

theorem unflagged_error_values_come_from_outside:
  assumes run: "executeBucket sch b = Some (out, st)"
  shows "(\<forall>s xs. store st s = Some xs \<and> \<not> hasErrors st \<longrightarrow>
            store b s = Some xs \<or>
            (\<exists>R. delivered st s R \<and> (\<forall>t\<in>set R. \<not> isRejects t) \<and> xs = map settledEntry R) \<or>
            (isSyncAndSafe (stepOf (layerPlan st) s) \<and> returnedBy st s xs)) \<and>
         (\<forall>s xs. store st s = Some xs \<and> (\<exists>v\<in>set xs. isCrystalError v) \<and> \<not> hasErrors st \<longrightarrow>
            store b s = Some xs \<or>
            (\<exists>R. delivered st s R \<and> (xs = R \<or> xs = map settledEntry R) \<and>
               (\<exists>t\<in>set R. carriesError t))) \<and>
         (\<forall>s deps d. (s, deps) \<in> set (dispatched st) \<and> Some d \<in> set deps \<and>
            (\<exists>v\<in>set d. isCrystalError v) \<and> \<not> hasErrors st \<longrightarrow>
            supplied (store b) st d \<or>
            (\<exists>s' R. delivered st s' R \<and> (d = R \<or> d = map settledEntry R) \<and>
               (\<exists>t\<in>set R. carriesError t))) \<and>
         (forgeFree (layerPlan b) \<and>
          (\<not> hasErrors b \<longrightarrow>
             (\<forall>s xs. store b s = Some xs \<longrightarrow> errorFree xs) \<and> errorFree (noDepsList b)) \<longrightarrow>
            (\<forall>s xs. store st s = Some xs \<longrightarrow> (\<exists>v\<in>set xs. isCrystalError v) \<longrightarrow> hasErrors st) \<and>
            (\<forall>(s, deps)\<in>set (dispatched st).
               \<forall>d. Some d \<in> set deps \<longrightarrow> (\<exists>v\<in>set d. isCrystalError v) \<longrightarrow> hasErrors st))"
proof -
  have unflagged: "store b s = Some xs \<or>
            (\<exists>R. delivered st s R \<and> (\<forall>t\<in>set R. \<not> isRejects t) \<and> xs = map settledEntry R) \<or>
            (isSyncAndSafe (stepOf (layerPlan st) s) \<and> returnedBy st s xs)"
    if h: "store st s = Some xs \<and> \<not> hasErrors st" for s xs
  proof -
    from executeBucket_accounted [OF run] h have "store b s = Some xs \<or> routed st s xs"
      unfolding accounted_def by blast
    with h show ?thesis unfolding routed_def by blast
  qed
  have published: "store b s = Some xs \<or>
            (\<exists>R. delivered st s R \<and> (xs = R \<or> xs = map settledEntry R) \<and>
               (\<exists>t\<in>set R. carriesError t))"
    if h: "store st s = Some xs \<and> (\<exists>v\<in>set xs. isCrystalError v) \<and> \<not> hasErrors st"
    for s xs
  proof -
    from executeBucket_accounted [OF run] h have "store b s = Some xs \<or> routed st s xs"
      unfolding accounted_def by blast
    then show ?thesis
    proof
      assume "store b s = Some xs" then show ?thesis ..
    next
      assume "routed st s xs"
      with h show ?thesis by (blast dest: routed_unflagged_error)
    qed
  qed
  have handed: "supplied (store b) st d \<or>
            (\<exists>s' R. delivered st s' R \<and> (d = R \<or> d = map settledEntry R) \<and>
               (\<exists>t\<in>set R. carriesError t))"
    if h: "(s, deps) \<in> set (dispatched st) \<and> Some d \<in> set deps \<and>
            (\<exists>v\<in>set d. isCrystalError v) \<and> \<not> hasErrors st"
    for s deps d
  proof -
    from executeBucket_accounted [OF run] h
    have "supplied (store b) st d \<or> (\<exists>s'. routed st s' d)"
      unfolding accounted_def by blast
    then show ?thesis
    proof
      assume "supplied (store b) st d" then show ?thesis ..
    next
      assume "\<exists>s'. routed st s' d"
      then obtain s' where "routed st s' d" ..
      with h show ?thesis by (blast dest: routed_unflagged_error)
    qed
  qed
  have covered:
    "(\<forall>s xs. store st s = Some xs \<longrightarrow> (\<exists>v\<in>set xs. isCrystalError v) \<longrightarrow> hasErrors st) \<and>
     (\<forall>(s, deps)\<in>set (dispatched st).
        \<forall>d. Some d \<in> set deps \<longrightarrow> (\<exists>v\<in>set d. isCrystalError v) \<longrightarrow> hasErrors st)"
    if pre: "forgeFree (layerPlan b) \<and>
          (\<not> hasErrors b \<longrightarrow>
             (\<forall>s xs. store b s = Some xs \<longrightarrow> errorFree xs) \<and> errorFree (noDepsList b))"
  proof -
    from pre have "errorsFlagged (initial b)" by (simp add: errorsFlagged_def initial_def)
    moreover from pre have "forgeFree (layerPlan (initial b))" by (simp add: initial_def)
    ultimately have flagged: "errorsFlagged st"
      using executeBucket_advances [OF run] by (blast intro: advances_star_errorsFlagged)
    show ?thesis
    proof (intro conjI allI impI ballI; (simp only: split_paired_all case_prod_conv)?; (intro allI impI)?)
      fix s xs assume "store st s = Some xs" "\<exists>v\<in>set xs. isCrystalError v"
      with flagged show "hasErrors st"
        by (auto simp: errorsFlagged_def errorFree_def dest: isCrystalError_carriesError)
    next
      fix s deps d
      assume "(s, deps) \<in> set (dispatched st)" "Some d \<in> set deps" "\<exists>v\<in>set d. isCrystalError v"
      with flagged show "hasErrors st"
        by (fastforce simp: errorsFlagged_def errorFree_def dest: isCrystalError_carriesError)
    qed
  qed
  from unflagged published handed covered show ?thesis by blast
qed

theorem unflagged_error_values_come_from_outside_witness:
  "(\<exists>out st. executeBucket [0] rowErrorBucket = Some (out, st) \<and>
      store st 0 = Some [Plain (Num 1), Plain (ErrV boom), Plain (Num 3)] \<and>
      isCrystalError (Plain (ErrV boom)) \<and> hasErrors st) \<and>
   (\<exists>out st R. executeBucket [0] (forgedBucket False) = Some (out, st) \<and>
      store st 0 = Some [Plain (Num 1), Plain (ErrV boom), Plain (Num 3)] \<and>
      \<not> hasErrors st \<and> delivered st 0 R \<and>
      ([Plain (Num 1), Plain (ErrV boom), Plain (Num 3)] = R \<or>
       [Plain (Num 1), Plain (ErrV boom), Plain (Num 3)] = map settledEntry R) \<and>
      (\<exists>t\<in>set R. carriesError t))"
proof -
  let ?xs = "[Plain (Num 1), Plain (ErrV boom), Plain (Num 3)]"
  have err: "isCrystalError (Plain (ErrV boom))" by (simp add: isCrystalError_def)
  have ev: "map_option (\<lambda>(out, st). store st 0) (executeBucket [0] rowErrorBucket) =
      Some (Some ?xs)"
    by code_simp
  then obtain out st where run: "executeBucket [0] rowErrorBucket = Some (out, st)"
    and col: "store st 0 = Some ?xs"
    by auto
  have pre: "forgeFree (layerPlan rowErrorBucket) \<and>
      (\<not> hasErrors rowErrorBucket \<longrightarrow>
        (\<forall>s xs. store rowErrorBucket s = Some xs \<longrightarrow> errorFree xs) \<and>
        errorFree (noDepsList rowErrorBucket))"
    using forgeFree_rowErrorBucket
    by (simp add: rowErrorBucket_def bucketOf_def errorFree_def carriesError_def)
  from unflagged_error_values_come_from_outside [OF run] pre
  have "\<forall>s xs. store st s = Some xs \<longrightarrow> (\<exists>v\<in>set xs. isCrystalError v) \<longrightarrow> hasErrors st"
    by blast
  with col err have "hasErrors st" by auto
  with run col err have one: "\<exists>out st. executeBucket [0] rowErrorBucket = Some (out, st) \<and>
      store st 0 = Some ?xs \<and> isCrystalError (Plain (ErrV boom)) \<and> hasErrors st"
    by blast
  have ev2: "map_option (\<lambda>(out, st). (store st 0, hasErrors st))
      (executeBucket [0] (forgedBucket False)) = Some (Some ?xs, False)"
    by code_simp
  then obtain out2 st2 where run2: "executeBucket [0] (forgedBucket False) = Some (out2, st2)"
    and col2: "store st2 0 = Some ?xs" and clean2: "\<not> hasErrors st2"
    by auto
  have fresh: "store (forgedBucket False) 0 = None"
    by (simp add: forgedBucket_def bucketOf_def)
  from err have "\<exists>v\<in>set ?xs. isCrystalError v" by simp
  with unflagged_error_values_come_from_outside [OF run2] col2 clean2
  have "store (forgedBucket False) 0 = Some ?xs \<or>
      (\<exists>R. delivered st2 0 R \<and> (?xs = R \<or> ?xs = map settledEntry R) \<and>
         (\<exists>t\<in>set R. carriesError t))"
    by blast
  with fresh obtain R where "delivered st2 0 R" "?xs = R \<or> ?xs = map settledEntry R"
    "\<exists>t\<in>set R. carriesError t"
    by auto
  with run2 col2 clean2 have two: "\<exists>out st R. executeBucket [0] (forgedBucket False) = Some (out, st) \<and>
      store st 0 = Some ?xs \<and> \<not> hasErrors st \<and> delivered st 0 R \<and>
      (?xs = R \<or> ?xs = map settledEntry R) \<and> (\<exists>t\<in>set R. carriesError t)"
    by (intro exI [of _ out2] exI [of _ st2] exI [of _ R] conjI)
  from one two show ?thesis by blast
qed
section \<open>Each step is dispatched once, on materialized columns\<close>

lemma depsFor_materialized: "materialized a s \<Longrightarrow> None \<notin> set (depsFor a s)"
  by (auto simp: materialized_def depsFor_def list_all_iff)

lemma suitable_materialized: "suitable a s \<Longrightarrow> materialized a s"
  by (simp add: suitable_def materialized_def)

lemma dispatches_dispatchedOnce:
  assumes step: "dispatches Q a b" and Q: "\<And>t. Q t a \<Longrightarrow> freshStart t a"
    and once: "dispatchedOnce a"
  shows "dispatchedOnce b"
proof -
  have new: "s \<notin> dispatchedSteps a \<and> None \<notin> set (depsFor a s)"
    if "s \<notin> inProgressSteps a" "Q s a \<or> suitable a s" for s
  proof -
    from that(2) have "materialized a s"
      using Q [of s] by (auto simp: freshStart_def dest: suitable_materialized)
    moreover from that once have "s \<notin> dispatchedSteps a"
      using Q [of s] by (auto simp: freshStart_def suitable_def dispatchedOnce_def)
    ultimately show ?thesis by (simp add: depsFor_materialized)
  qed
  from step show ?thesis
  proof (cases rule: dispatches.cases)
    case (async s p)
    with new [of s] once show ?thesis
      by (auto simp: dispatchedOnce_def dispatchedSteps_def)
  next
    case (slow s xs)
    with new [of s] once show ?thesis
      by (auto simp: dispatchedOnce_def dispatchedSteps_def)
  next
    case (fast s xs)
    with new [of s] once show ?thesis
      by (auto simp: dispatchedOnce_def dispatchedSteps_def)
  qed
qed

lemma settles_dispatchedOnce: "settles a b \<Longrightarrow> dispatchedOnce a \<Longrightarrow> dispatchedOnce b"
  by (induction rule: settles.induct)
     (auto simp: dispatchedOnce_def dispatchedSteps_def reject_def without_def)

lemma advances_star_dispatchedOnce:
  "(advances freshStart)\<^sup>*\<^sup>* a b \<Longrightarrow> dispatchedOnce a \<Longrightarrow> dispatchedOnce b"
  by (induction rule: rtranclp_induct)
     (auto simp: advances_def dest: dispatches_dispatchedOnce settles_dispatchedOnce)

text \<open>What one start step can add to the log, and what it keeps.\<close>

lemma dispatches_log:
  "dispatches (\<lambda>t a. t = s \<and> freshStart t a) a b \<Longrightarrow>
   dispatchedSteps b \<subseteq> dispatchedSteps a \<union> {s} \<union> {t. isDependent a t}"
  by (induction rule: dispatches.induct) (auto simp: dispatchedSteps_def suitable_def)

lemma dispatches_star_log:
  "(dispatches (\<lambda>t a. t = s \<and> freshStart t a))\<^sup>*\<^sup>* a b \<Longrightarrow>
   dispatchedSteps b \<subseteq> dispatchedSteps a \<union> {s} \<union> {t. isDependent a t}"
proof (induction rule: rtranclp_induct)
  case base
  show ?case by auto
next
  case (step y z)
  from step.hyps(1) have "isDependent y = isDependent a"
    by (intro isDependent_cong) (simp add: dispatches_star_static)
  with dispatches_log [OF step.hyps(2)] step.IH show ?case by auto
qed

lemma dispatches_store: "dispatches Q a b \<Longrightarrow> store a d \<noteq> None \<Longrightarrow> store b d \<noteq> None"
  by (induction rule: dispatches.induct) auto

lemma dispatches_star_materialized:
  "(dispatches Q)\<^sup>*\<^sup>* a b \<Longrightarrow> materialized a s \<Longrightarrow> materialized b s"
proof (induction rule: rtranclp_induct)
  case base
  then show ?case by simp
next
  case (step y z)
  from step.hyps(2) have "layerPlan z = layerPlan y" by (simp add: dispatches_static)
  with step dispatches_store [OF step.hyps(2)] show ?case
    by (auto simp: materialized_def list_all_iff)
qed

lemma dispatches_star_mono:
  assumes mono: "\<And>s st. Q s st \<Longrightarrow> Q' s st" and run: "(dispatches Q)\<^sup>*\<^sup>* a b"
  shows "(dispatches Q')\<^sup>*\<^sup>* a b"
  using run
proof (induction rule: rtranclp_induct)
  case base
  show ?case by simp
next
  case (step y z)
  from step.hyps(2) mono have "dispatches Q' y z" by (rule dispatches_mono)
  with step.IH show ?case by (rule rtranclp.rtrancl_into_rtrancl)
qed

lemma dispatchStartSteps_fresh:
  "dispatchStartSteps fuel ss (p, st) = Some (p', st') \<Longrightarrow> distinct ss \<Longrightarrow>
   \<forall>s\<in>set ss. \<not> isDependent st s \<Longrightarrow> set ss \<inter> dispatchedSteps st = {} \<Longrightarrow>
   \<forall>s\<in>set ss. materialized st s \<Longrightarrow> (dispatches freshStart)\<^sup>*\<^sup>* st st'"
proof (induction ss arbitrary: p st)
  case Nil
  then show ?case by simp
next
  case (Cons s ss)
  let ?Q = "\<lambda>t a. t = s \<and> freshStart t a"
  from Cons.prems(1) obtain q st1 where
    first: "rejectOnThrow (executeStep fuel s) st = Some (q, st1)" and
    rest: "dispatchStartSteps fuel ss (p \<or> q, st1) = Some (p', st')"
    by (auto split: option.splits)
  from first obtain r where r: "executeStep fuel s st = Some r"
    by (auto simp: rejectOnThrow_def split: option.splits)
  from Cons.prems(4,5) have guard: "?Q s st \<or> suitable st s"
    by (simp add: freshStart_def)
  from executeStep_sound [where Q = ?Q, OF guard r] obtain b st2 where
    "r = Inr (b, st2)" and run2: "(dispatches ?Q)\<^sup>*\<^sup>* st st2" by blast
  with first r have "st2 = st1" by (simp add: rejectOnThrow_def)
  with run2 have run: "(dispatches ?Q)\<^sup>*\<^sup>* st st1" by simp
  have dep: "isDependent st1 = isDependent st"
    using run by (intro isDependent_cong) (simp add: dispatches_star_static)
  have "(dispatches freshStart)\<^sup>*\<^sup>* st1 st'"
  proof (rule Cons.IH [OF rest])
    show "distinct ss" using Cons.prems(2) by simp
    show "\<forall>s\<in>set ss. \<not> isDependent st1 s" using Cons.prems(3) dep by simp
    show "set ss \<inter> dispatchedSteps st1 = {}"
      using dispatches_star_log [OF run] Cons.prems(2,3,4) by auto
    show "\<forall>s\<in>set ss. materialized st1 s"
      using Cons.prems(5) dispatches_star_materialized [OF run] by simp
  qed
  moreover have "(dispatches freshStart)\<^sup>*\<^sup>* st st1"
    using run by (rule dispatches_star_mono [rotated]) simp
  ultimately show ?case by (auto intro: rtranclp_trans)
qed

lemma executeBucket_freshStart:
  assumes run: "executeBucket sch b = Some (out, st)"
    and starts: "distinct (startSteps (layerPlan b))"
    and roots: "\<forall>s\<in>set (startSteps (layerPlan b)).
        (\<forall>f. s \<notin> set (dependentPlans (stepOf (layerPlan b) f))) \<and>
        list_all (\<lambda>d. store b d \<noteq> None) (dependencies (stepOf (layerPlan b) s))"
  shows "(advances freshStart)\<^sup>*\<^sup>* (initial b) st"
proof -
  from run obtain p st1 where
    start: "dispatchStartSteps (fuelFor b) (startSteps (layerPlan b)) (False, initial b) =
      Some (p, st1)"
    by (auto simp: executeBucket_def split: option.splits)
  have "(dispatches freshStart)\<^sup>*\<^sup>* (initial b) st1"
  proof (rule dispatchStartSteps_fresh [OF start starts])
    show "\<forall>s\<in>set (startSteps (layerPlan b)). \<not> isDependent (initial b) s"
      using roots by (simp add: isDependent_def initial_def)
    show "set (startSteps (layerPlan b)) \<inter> dispatchedSteps (initial b) = {}"
      by (simp add: dispatchedSteps_def initial_def)
    show "\<forall>s\<in>set (startSteps (layerPlan b)). materialized (initial b) s"
      using roots by (simp add: materialized_def initial_def)
  qed
  then have one: "(advances freshStart)\<^sup>*\<^sup>* (initial b) st1"
    by (rule dispatches_advances [rotated]) simp
  show ?thesis
  proof (cases p)
    case True
    with run start obtain st2 where
      "runSchedule (fuelFor b) sch st1 = Some st2" "settled st2 = (out, st)"
      by (auto simp: executeBucket_def)
    with one show ?thesis
      by (auto dest!: settled_state runSchedule_advances [where Q = freshStart]
          intro: rtranclp_trans)
  next
    case False
    with run start have "st = st1"
      by (auto simp: executeBucket_def split: sum.splits dest: executeSamePhaseChildren_state)
    with one show ?thesis by simp
  qed
qed

text \<open>
  Claim C7. Take a layer plan whose start steps are pairwise different, are no step's
  dependents, and find their dependency columns in the bucket's store. Then in every run,
  at every moment, no step has passed the guard of \<open>executeStep\<close> (and so has had
  \<open>execute\<close> invoked) more than once, and every step that did was given a column of the
  store for each of its dependencies: each \<open>store[d]\<close> was materialized when it was read.
\<close>

theorem steps_dispatched_once_on_materialized_columns:
  assumes starts: "distinct (startSteps (layerPlan b))"
    and roots: "\<forall>s\<in>set (startSteps (layerPlan b)).
        (\<forall>f. s \<notin> set (dependentPlans (stepOf (layerPlan b) f))) \<and>
        list_all (\<lambda>d. store b d \<noteq> None) (dependencies (stepOf (layerPlan b) s))"
    and run: "executeBucket sch b = Some (out, st)"
  shows "distinct (map fst (dispatched st)) \<and>
         (\<forall>(s, deps)\<in>set (dispatched st). None \<notin> set deps)"
proof -
  have "dispatchedOnce (initial b)"
    by (simp add: dispatchedOnce_def dispatchedSteps_def initial_def)
  with executeBucket_freshStart [OF run starts roots] have "dispatchedOnce st"
    by (rule advances_star_dispatchedOnce)
  then show ?thesis by (simp add: dispatchedOnce_def)
qed


text \<open>
  The diamond: step 3 depends on step 1 (asynchronous) and step 2 (synchronous); it is
  dispatched exactly once, last, with the columns of steps 1 and 2 in that order.
\<close>

theorem steps_dispatched_once_on_materialized_columns_witness:
  "\<exists>out st. executeBucket [0, 0] diamondBucket = Some (out, st) \<and> out = Resolved \<and>
     map fst (dispatched st) = [0, 1, 2, 3] \<and>
     dispatched st ! 3 =
       (3, [Some [Plain (Num 11), Plain (Num 12)], Some [Plain (Num 7), Plain (Num 8)]]) \<and>
     distinct (map fst (dispatched st))"
proof -
  have ev: "map_option (\<lambda>(out, st). (out, map fst (dispatched st), dispatched st ! 3))
      (executeBucket [0, 0] diamondBucket) =
      Some (Resolved, [0, 1, 2, 3],
        (3, [Some [Plain (Num 11), Plain (Num 12)], Some [Plain (Num 7), Plain (Num 8)]]))"
    by code_simp
  then obtain out st where run: "executeBucket [0, 0] diamondBucket = Some (out, st)"
    and obs: "out = Resolved" "map fst (dispatched st) = [0, 1, 2, 3]"
      "dispatched st ! 3 =
        (3, [Some [Plain (Num 11), Plain (Num 12)], Some [Plain (Num 7), Plain (Num 8)]])"
    by auto
  have starts: "distinct (startSteps (layerPlan diamondBucket))"
    by (simp add: diamondBucket_def bucketOf_def)
  have "0 \<notin> set (dependentPlans (stepOf (layerPlan diamondBucket) f))" for f
  proof -
    consider "f = 0" | "f = 1" | "f = 2" | "f = 3" | "4 \<le> f" by linarith
    then show ?thesis
      by cases (simp_all add: diamondBucket_def bucketOf_def mkStep_def)
  qed
  then have roots: "\<forall>s\<in>set (startSteps (layerPlan diamondBucket)).
        (\<forall>f. s \<notin> set (dependentPlans (stepOf (layerPlan diamondBucket) f))) \<and>
        list_all (\<lambda>d. store diamondBucket d \<noteq> None)
          (dependencies (stepOf (layerPlan diamondBucket) s))"
    by (simp add: diamondBucket_def bucketOf_def mkStep_def)
  from steps_dispatched_once_on_materialized_columns [OF starts roots run] have "distinct (map fst (dispatched st))" by simp
  with run obs show ?thesis by (intro exI conjI)
qed

section \<open>The error value and the completion flag\<close>

text \<open>
  Claim C5. \<open>newCrystalError\<close> takes the original error alone and keeps it in
  \<open>originalError\<close>; the step id the call sites pass is dropped, so the ErrorValues made
  for the same fault at two different steps are the same value: no originating step id
  can be read back from one. After step 1 of the example plan fails, every entry of
  \<open>store[1]\<close> is the value that a failure of step 2 would have made.
\<close>

theorem crystal_error_forgets_step_id:
  "newCrystalError_call (StepError ''boom'') 1 = newCrystalError_call (StepError ''boom'') 2 \<and>
   originalError (newCrystalError_call (StepError ''boom'') 1) = StepError ''boom'' \<and>
   map_option (\<lambda>(out, st). store st 1) (executeBucket [] catastropheBucket) =
     Some (Some (replicate 3 (Plain (ErrV (newCrystalError_call (StepError ''boom'') 2)))))"
proof -
  have "map_option (\<lambda>(out, st). store st 1) (executeBucket [] catastropheBucket) =
     Some (Some (replicate 3 (Plain (ErrV (newCrystalError_call (StepError ''boom'') 2)))))"
    by code_simp
  then show ?thesis
    by (simp add: newCrystalError_call_def newCrystalError_def new_CrystalError_def Let_def)
qed

text \<open>
  Claim C6. On the bucket of size 0 with no steps and no child layer plans,
  \<open>executeBucket\<close> returns at once and \<open>isComplete\<close> is still false. On the diamond
  the returned future resolves, all four steps done, and \<open>isComplete\<close> is still false.
\<close>

theorem isComplete_stays_false:
  "map_option (\<lambda>(out, st). (out, isComplete st)) (executeBucket [] emptyBucket) =
     Some (Direct, False) \<and>
   map_option (\<lambda>(out, st). (out, pendingSteps st = {}, isComplete st))
     (executeBucket [0, 0] diamondBucket) = Some (Resolved, True, False)"
  by code_simp

section \<open>The error-aware invoker on columns without ErrorValues\<close>

text \<open>
  Claim C10. With \<open>hasErrors\<close> true and no ErrorValue in any dependency column, the
  error-aware invoker is not the direct invocation. Whatever the entries are, its scan
  throws the ReferenceError of the unbound \<open>isCrystalError\<close> at the first entry of the
  first dependency column, before \<open>execute\<close> is called; \<open>executeStep\<close> catches it and
  the column of the step becomes the ErrorValue of the ReferenceError on every row,
  stored at once for a sync-and-safe step and registered for settling otherwise. In the
  example the bucket comes with \<open>hasErrors\<close> true and the column \<open>[1, 2]\<close>, and its
  step adds ten: the published column is that ErrorValue twice, where the same bucket
  with \<open>hasErrors\<close> false, which invokes the step directly, publishes \<open>[11, 12]\<close>.
\<close>

theorem invoker_without_errors_is_not_direct:
  "reallyExecuteStepWithErrors step (Some (v # depList) # deps) = Throws ReferenceError \<and>
   (hasErrors st \<and> s \<notin> inProgressSteps st \<and> depsFor st s = Some (v # depList) # deps \<and>
    finite (pendingSteps st) \<and> card (pendingSteps st) \<le> fuel \<longrightarrow>
      (\<exists>p st'. executeStep (Suc fuel) s st = Some (Inr (p, st')) \<and> hasErrors st' \<and>
         rejection st' = rejection st \<and>
         (if isSyncAndSafe (stepOf (layerPlan st) s)
          then store st' s = Some (broadcast st s ReferenceError)
          else AwaitSettled s (broadcast st s ReferenceError) \<in> set (tasks st')))) \<and>
   map_option (\<lambda>(out, st). (out, dispatched st, store st 1)) (executeBucket [] flaggedBucket) =
     Some (Direct, [(1, [Some [Plain (Num 1), Plain (Num 2)]])],
           Some (replicate 2 (Plain (ErrV (newCrystalError ReferenceError))))) \<and>
   map_option (\<lambda>(out, st). (out, dispatched st, store st 1))
     (executeBucket [] (flaggedBucket\<lparr>hasErrors := False\<rparr>)) =
     Some (Direct, [(1, [Some [Plain (Num 1), Plain (Num 2)]])],
           Some [Plain (Num 11), Plain (Num 12)])"
proof (intro conjI impI)
  show "reallyExecuteStepWithErrors step (Some (v # depList) # deps) = Throws ReferenceError"
    by (rule invoker_throws)
next
  assume h: "hasErrors st \<and> s \<notin> inProgressSteps st \<and>
    depsFor st s = Some (v # depList) # deps \<and>
    finite (pendingSteps st) \<and> card (pendingSteps st) \<le> fuel"
  then have "invoke st s = Throws ReferenceError" by (simp add: invoke_throws)
  then have "caught st s = Some ReferenceError" by (simp add: caught_def)
  with h show "\<exists>p st'. executeStep (Suc fuel) s st = Some (Inr (p, st')) \<and> hasErrors st' \<and>
         rejection st' = rejection st \<and>
         (if isSyncAndSafe (stepOf (layerPlan st) s)
          then store st' s = Some (broadcast st s ReferenceError)
          else AwaitSettled s (broadcast st s ReferenceError) \<in> set (tasks st'))"
    by (intro executeStep_caught) simp_all
next
  show "map_option (\<lambda>(out, st). (out, dispatched st, store st 1)) (executeBucket [] flaggedBucket) =
     Some (Direct, [(1, [Some [Plain (Num 1), Plain (Num 2)]])],
           Some (replicate 2 (Plain (ErrV (newCrystalError ReferenceError)))))"
    by code_simp
next
  show "map_option (\<lambda>(out, st). (out, dispatched st, store st 1))
     (executeBucket [] (flaggedBucket\<lparr>hasErrors := False\<rparr>)) =
     Some (Direct, [(1, [Some [Plain (Num 1), Plain (Num 2)]])],
           Some [Plain (Num 11), Plain (Num 12)])"
    by code_simp
qed

theorem invoker_without_errors_is_not_direct_witness:
  "\<exists>p st'. executeStep 2 1 (initial flaggedBucket) = Some (Inr (p, st')) \<and> hasErrors st' \<and>
     rejection st' = None \<and>
     store st' 1 = Some (replicate 2 (Plain (ErrV (newCrystalError ReferenceError))))"
proof -
  let ?a = "initial flaggedBucket"
  have flag: "hasErrors ?a" and idle: "inProgressSteps ?a = {}" "rejection ?a = None"
    and pend: "pendingSteps ?a = {1}" and sz: "bucket_size ?a = 2"
    by (simp_all add: initial_def flaggedBucket_def)
  have deps: "depsFor ?a 1 = Some (Plain (Num 1) # [Plain (Num 2)]) # []"
    by (simp add: depsFor_def initial_def flaggedBucket_def mkStep_def)
  have safe: "isSyncAndSafe (stepOf (layerPlan ?a) 1)"
    by (simp add: initial_def flaggedBucket_def mkStep_def)
  have two_is: "Suc 1 = 2" by simp
  from invoker_without_errors_is_not_direct
    [where st = ?a and s = 1 and v = "Plain (Num 1)" and depList = "[Plain (Num 2)]"
       and deps = "[]" and fuel = 1]
  have "hasErrors ?a \<and> 1 \<notin> inProgressSteps ?a \<and>
      depsFor ?a 1 = Some (Plain (Num 1) # [Plain (Num 2)]) # [] \<and>
      finite (pendingSteps ?a) \<and> card (pendingSteps ?a) \<le> 1 \<longrightarrow>
    (\<exists>p st'. executeStep (Suc 1) 1 ?a = Some (Inr (p, st')) \<and> hasErrors st' \<and>
         rejection st' = rejection ?a \<and>
         (if isSyncAndSafe (stepOf (layerPlan ?a) 1)
          then store st' 1 = Some (broadcast ?a 1 ReferenceError)
          else AwaitSettled 1 (broadcast ?a 1 ReferenceError) \<in> set (tasks st')))"
    by blast
  with flag idle pend deps safe sz show ?thesis
    unfolding two_is by (simp add: broadcast_replicate)
qed

end
